theory Spec2Isabelle
  imports Complex_Main "HOL-Library.Word" "HOL-Library.Sublist"
begin

section \<open>The detection driver \<^verbatim>\<open>detect.py\<close>\<close>

text \<open>
  The script reads images, calls a network and writes label files and annotated
  images. Everything it does beyond computing values is made explicit here:
  the file system, the flags of the network object, the clock and a log of what
  happened are fields of a state; every operation takes the state and returns
  the new one together with either a result or the exception it raised.

  The libraries the script calls (argparse, the hub loader, the network's
  forward pass, the data set, the drawing helper, the number formatting of
  \<^verbatim>\<open>%\<close>) are not part of the script. They are the fields of a record
  \<open>ext\<close> that every function takes as its first argument: a theorem with a
  free \<open>ext\<close> holds for every behaviour of these libraries.

  A floating-point number is modelled by the rational it denotes. The division
  by 255 in \<^verbatim>\<open>read_image\<close> rounds its quotient to float32, as the array
  arithmetic of the code does (\<open>float32\<close> below); the numbers that come from
  the network and from the clock are taken as they are.

  Text is modelled by \<open>string\<close>, sequences of the characters with code points
  below 256.
\<close>

subsection \<open>Values\<close>

datatype error =
    OSError | UnicodeDecodeError | CvError | RuntimeError | KeyError
  | IndexError | TypeError | ValueError | UnboundLocalError | SystemExit
  | LibraryError string

text \<open>A path is the list of its parts, as \<^verbatim>\<open>pathlib\<close> keeps it; an absolute path
  starts with its root, the part \<open>''/''\<close> or, when the string starts with
  exactly two slashes, the part \<open>''//''\<close>.\<close>

type_synonym path = "string list"

text \<open>What \<^verbatim>\<open>cv2.imread\<close> returns for a file it can decode: an array of shape
  (H, W, 3) of unsigned bytes.\<close>

type_synonym image = "8 word list list list"

text \<open>A file is a sequence of text lines (each with its newline) and pictures.\<close>

datatype chunk = Line string | Pic image

datatype device = Cpu | Cuda

datatype dtype = Float32 | Float16

record tensor =
  dtype :: dtype
  device :: device
  data :: "rat list list list"

text \<open>One prediction of the network is a dictionary; the script reads its keys
  \<open>''boxes''\<close> (one row of four coordinates per detection), \<open>''scores''\<close> and
  \<open>''labels''\<close> (one entry per detection each).\<close>

datatype entry = BoxT "rat list list" | VecT "rat list" | IntT "int list"

type_synonym prediction = "(string \<times> entry) list"

text \<open>The namespace \<^verbatim>\<open>args\<close>: the command-line options the script reads, and the
  four attributes \<^verbatim>\<open>main\<close> adds (\<open>webcam\<close>, \<open>mode\<close>, \<open>names\<close>, \<open>colors\<close>).\<close>

record args =
  model_cfg :: string
  checkpoint :: string
  labelmap :: string
  input_source :: string
  output_dir :: string
  img_size :: int
  gpu :: bool
  save_txt :: bool
  save_img :: bool
  webcam :: bool
  mode :: string
  names :: "string list"
  colors :: "nat list list"

record dataset =
  ds_mode :: string
  ds_items :: "(error + string) list"

datatype event =
    EvParseArgs "string list"
  | EvMkdir path
  | EvPrint string
  | EvYolov5 string string
  | EvLoadImages string int
  | EvYield string
  | EvOpenRead path
  | EvImread path
  | EvForward
  | EvAppend path string
  | EvImwrite path bool
  | EvCall string string
  | EvReturn string string
  | EvRaise error

record world =
  files :: "path \<Rightarrow> chunk list option"
  locked :: "path set"
  net_training :: bool
  net_fp16 :: bool
  net_device :: device
  ticks :: nat
  log :: "event list"

record 'w ext =
  parse_args :: "string list \<Rightarrow> error + args"
  repr_args :: "args \<Rightarrow> string"
  cuda_is_available :: bool
  yolov5 :: "string \<Rightarrow> string \<Rightarrow> (path \<Rightarrow> chunk list option) \<Rightarrow> error + 'w \<times> bool"
  stride_max :: "'w \<Rightarrow> int"
  check_img_size :: "int \<Rightarrow> int \<Rightarrow> error + int"
  LoadImages :: "string \<Rightarrow> int \<Rightarrow> (path \<Rightarrow> chunk list option) \<Rightarrow> error + dataset"
  forward :: "'w \<Rightarrow> bool \<Rightarrow> bool \<Rightarrow> device \<Rightarrow> tensor list \<Rightarrow> error + prediction option list"
  plot_one_box :: "rat list \<Rightarrow> image \<Rightarrow> string \<Rightarrow> nat list \<Rightarrow> nat \<Rightarrow> error + image"
  has_encoder :: "path \<Rightarrow> bool"
  codec :: "path \<Rightarrow> image \<Rightarrow> image"
  fmt_g :: "rat \<Rightarrow> string"
  fmt_f :: "nat \<Rightarrow> rat \<Rightarrow> string"
  clock :: "nat \<Rightarrow> rat"
  randint :: "nat \<Rightarrow> nat"

subsection \<open>Strings and paths\<close>

definition newline :: char where
  "newline = CHR 0x0A"

text \<open>The characters that \<^verbatim>\<open>str.strip\<close> removes: the white space of Unicode, which
  below 256 is the ASCII white space, the four separators from 0x1C to 0x1F,
  the next-line character 0x85 and the no-break space 0xA0.\<close>

definition is_space :: "char \<Rightarrow> bool" where
  "is_space c = (c \<in> set [CHR '' '', CHR 0x09, CHR 0x0A, CHR 0x0B, CHR 0x0C, CHR 0x0D,
                           CHR 0x1C, CHR 0x1D, CHR 0x1E, CHR 0x1F, CHR 0x85, CHR 0xA0])"

definition strip :: "string \<Rightarrow> string" where
  "strip s = rev (dropWhile is_space (rev (dropWhile is_space s)))"

text \<open>The characters that \<^verbatim>\<open>str.isnumeric\<close> accepts: those with a numeric value in
  Unicode, which below 256 are the ten digits, the superscripts two, three and
  one (0xB2, 0xB3, 0xB9) and the fractions one quarter, one half and three
  quarters (0xBC, 0xBD, 0xBE).\<close>

definition is_numeric :: "char \<Rightarrow> bool" where
  "is_numeric c = (c \<in> set ''0123456789''
                   \<or> c \<in> set [CHR 0xB2, CHR 0xB3, CHR 0xB9, CHR 0xBC, CHR 0xBD, CHR 0xBE])"

definition isnumeric :: "string \<Rightarrow> bool" where
  "isnumeric s = (s \<noteq> [] \<and> list_all is_numeric s)"

definition startswith :: "string \<Rightarrow> string \<Rightarrow> bool" where
  "startswith s p = (take (length p) s = p)"

definition endswith :: "string \<Rightarrow> string \<Rightarrow> bool" where
  "endswith s p = (length p \<le> length s \<and> drop (length s - length p) s = p)"

fun split_on :: "char \<Rightarrow> string \<Rightarrow> string list" where
  "split_on c [] = [[]]"
| "split_on c (x # xs) =
     (if x = c then [] # split_on c xs
      else (case split_on c xs of [] \<Rightarrow> [[x]] | y # ys \<Rightarrow> (x # y) # ys))"

definition root :: "string \<Rightarrow> string list" where
  "root s = (if startswith s ''//'' \<and> \<not> startswith s ''///'' then [''//'']
             else if startswith s ''/'' then [''/'']
             else [])"

definition Path :: "string \<Rightarrow> path" where
  "Path s = root s @ filter (\<lambda>p. p \<noteq> [] \<and> p \<noteq> ''.'') (split_on CHR ''/'' s)"

fun join_parts :: "string list \<Rightarrow> string" where
  "join_parts [] = []"
| "join_parts [p] = p"
| "join_parts (p # q # ps) = p @ ''/'' @ join_parts (q # ps)"

definition str_path :: "path \<Rightarrow> string" where
  "str_path p = (case p of [] \<Rightarrow> ''.''
                 | r # ps \<Rightarrow> if r = ''/'' \<or> r = ''//'' then r @ join_parts ps
                            else join_parts (r # ps))"

definition name :: "path \<Rightarrow> string" where
  "name p = (if p = [] \<or> p = [''/''] \<or> p = [''//''] then [] else last p)"

definition rfind :: "string \<Rightarrow> char \<Rightarrow> int" where
  "rfind s c = (case filter (\<lambda>i. s ! i = c) (rev [0..<length s]) of
                  [] \<Rightarrow> - 1 | i # _ \<Rightarrow> int i)"

definition stem :: "path \<Rightarrow> string" where
  "stem p = (let n = name p; i = rfind n CHR ''.''
             in if 0 < i \<and> i < int (length n) - 1 then take (nat i) n else n)"

definition joinpath :: "path \<Rightarrow> string \<Rightarrow> path" where
  "joinpath d s = (if startswith s ''/'' then Path s else d @ Path s)"

subsection \<open>Numbers, lists and tensors\<close>

text \<open>\<^verbatim>\<open>torch.round\<close> rounds halves to the even neighbour.\<close>

definition round_half_even :: "rat \<Rightarrow> rat" where
  "round_half_even x =
     (let f = \<lfloor>x\<rfloor>; d = x - of_int f
      in if d < 1 / 2 then of_int f
         else if 1 / 2 < d then of_int (f + 1)
         else if even f then of_int f else of_int (f + 1))"

text \<open>Python's list indexing: a negative index counts from the end.\<close>

definition py_index :: "'a list \<Rightarrow> int \<Rightarrow> error + 'a" where
  "py_index xs i =
     (if 0 \<le> i \<and> i < int (length xs) then Inr (xs ! nat i)
      else if i < 0 \<and> - int (length xs) \<le> i then Inr (xs ! nat (int (length xs) + i))
      else Inl IndexError)"

text \<open>\<^verbatim>\<open>labels.unique()\<close> returns the distinct values in ascending order.\<close>

definition unique :: "int list \<Rightarrow> int list" where
  "unique ls = sort (remdups ls)"

text \<open>Modelled from the spec: \<^verbatim>\<open>box_xyxy_to_cxcywh\<close> of \<^verbatim>\<open>utils.general\<close> is not
  among the sources. The spec's words are that it converts a box "from xyxy
  corner form to center-x, center-y, width, height form".\<close>

definition box_xyxy_to_cxcywh :: "rat list \<Rightarrow> error + rat list" where
  "box_xyxy_to_cxcywh b =
     (case b of
        [x0, y0, x1, y1] \<Rightarrow> Inr [(x0 + x1) / 2, (y0 + y1) / 2, x1 - x0, y1 - y0]
      | _ \<Rightarrow> Inl ValueError)"

text \<open>The float32 nearest to a rational, a tie going to the even significand,
  which is how the division of two float32 rounds its exact quotient. A
  float32 has 24 bits of significand: between two neighbouring powers of two
  \<open>b\<close> and \<open>2 * b\<close> the float32 are the multiples of \<open>b / 2 ^ 23\<close>, and below the
  smallest normal number \<open>1 / 2 ^ 126\<close> they are the multiples of
  \<open>1 / 2 ^ 149\<close>. \<open>binade q\<close> is the power of two at or below \<open>q\<close>, between
  \<open>1 / 2 ^ 126\<close> and \<open>2 ^ 127\<close>. (Quotients beyond the largest float32, which
  round to infinity, are outside the model; the quotients of the script lie
  between 0 and 1.)\<close>

primrec binade_up :: "nat \<Rightarrow> rat \<Rightarrow> rat \<Rightarrow> rat" where
  "binade_up 0 b q = b"
| "binade_up (Suc n) b q = (if q < 2 * b then b else binade_up n (2 * b) q)"

primrec binade_down :: "nat \<Rightarrow> rat \<Rightarrow> rat \<Rightarrow> rat" where
  "binade_down 0 b q = b"
| "binade_down (Suc n) b q = (if b \<le> q then b else binade_down n (b / 2) q)"

definition binade :: "rat \<Rightarrow> rat" where
  "binade q = (if q < 1 / 2 ^ 126 then 1 / 2 ^ 126
               else if 1 \<le> q then binade_up 127 1 q
               else binade_down 126 1 q)"

definition float32 :: "rat \<Rightarrow> rat" where
  "float32 q = (let u = binade \<bar>q\<bar> / 2 ^ 23 in round_half_even (q / u) * u)"

text \<open>\<^verbatim>\<open>np.ascontiguousarray(img, dtype=np.float32)\<close> (a byte is a float32 as it
  is), \<^verbatim>\<open>img /= 255.0\<close> (the division of a float32 array, entry by entry) and
  \<^verbatim>\<open>img.permute(2, 0, 1)\<close>.\<close>

definition to_float32 :: "image \<Rightarrow> rat list list list" where
  "to_float32 img = map (map (map (\<lambda>b. rat_of_nat (unat b)))) img"

definition div255 :: "rat list list list \<Rightarrow> rat list list list" where
  "div255 a = map (map (map (\<lambda>x. float32 (x / 255)))) a"

definition permute_2_0_1 :: "rat list list list \<Rightarrow> rat list list list" where
  "permute_2_0_1 a =
     map (\<lambda>c. map (map (\<lambda>px. px ! c)) a) [0..<length (hd (hd a))]"

definition well_shaped :: "image \<Rightarrow> bool" where
  "well_shaped img =
     (img \<noteq> [] \<and> hd img \<noteq> [] \<and>
      list_all (\<lambda>row. length row = length (hd img) \<and> list_all (\<lambda>px. length px = 3) row) img)"

subsection \<open>Operations on the state\<close>

type_synonym 'a prog = "world \<Rightarrow> (error + 'a) \<times> world"

definition retE :: "'a \<Rightarrow> 'a prog" where
  "retE x s = (Inr x, s)"

definition emit :: "event \<Rightarrow> unit prog" where
  "emit ev s = (Inr (), s\<lparr>log := log s @ [ev]\<rparr>)"

text \<open>An exception is logged where it is raised; nothing in the script logs one
  anywhere else.\<close>

definition raiseE :: "error \<Rightarrow> 'a prog" where
  "raiseE e s = (Inl e, s\<lparr>log := log s @ [EvRaise e]\<rparr>)"

definition bindE :: "'a prog \<Rightarrow> ('a \<Rightarrow> 'b prog) \<Rightarrow> 'b prog" where
  "bindE m f s = (case m s of (Inl e, s') \<Rightarrow> (Inl e, s') | (Inr x, s') \<Rightarrow> f x s')"

definition lift :: "error + 'a \<Rightarrow> 'a prog" where
  "lift v = (case v of Inl e \<Rightarrow> raiseE e | Inr x \<Rightarrow> retE x)"

definition py_print :: "string \<Rightarrow> unit prog" where
  "py_print msg = emit (EvPrint msg)"

text \<open>\<^verbatim>\<open>time.time()\<close> and \<^verbatim>\<open>time_synchronized()\<close>: the next reading of the clock.\<close>

definition time_now :: "'w ext \<Rightarrow> rat prog" where
  "time_now ext s = (Inr (clock ext (ticks s)), s\<lparr>ticks := Suc (ticks s)\<rparr>)"

text \<open>\<^verbatim>\<open>cv2.imread\<close> raises nothing: it returns \<^verbatim>\<open>None\<close> for a file that is missing
  or is not a picture.\<close>

definition decoded :: "world \<Rightarrow> path \<Rightarrow> image option" where
  "decoded s p = (case files s p of
                    Some [Pic img] \<Rightarrow> if well_shaped img then Some img else None
                  | _ \<Rightarrow> None)"

definition cv2_imread :: "path \<Rightarrow> image option prog" where
  "cv2_imread p s = (Inr (decoded s p), s\<lparr>log := log s @ [EvImread p]\<rparr>)"

text \<open>\<^verbatim>\<open>cv2.imwrite\<close> raises for an empty image and for a file name it has no
  encoder for; when the file cannot be written it returns \<^verbatim>\<open>False\<close>. What it
  writes is an encoding of the array in the format of the file name: the
  picture that is decoded from the file is \<open>codec ext p a\<close>, which for a format
  that loses information is not the array \<open>a\<close> itself.\<close>

definition cv2_imwrite :: "'w ext \<Rightarrow> path \<Rightarrow> image option \<Rightarrow> bool prog" where
  "cv2_imwrite ext p img s =
     (case img of
        None \<Rightarrow> raiseE CvError s
      | Some a \<Rightarrow>
          if \<not> has_encoder ext p then raiseE CvError s
          else if p \<in> locked s then (Inr False, s\<lparr>log := log s @ [EvImwrite p False]\<rparr>)
          else (Inr True, s\<lparr>files := (files s)(p \<mapsto> [Pic (codec ext p a)]),
                            log := log s @ [EvImwrite p True]\<rparr>))"

text \<open>\<^verbatim>\<open>with open(p, 'a') as f: f.write(line)\<close>.\<close>

definition open_append :: "path \<Rightarrow> string \<Rightarrow> unit prog" where
  "open_append p line s =
     (if p \<in> locked s then raiseE OSError s
      else (Inr (), s\<lparr>files := (files s)(p \<mapsto> (case files s p of None \<Rightarrow> [] | Some old \<Rightarrow> old)
                                              @ [Line line]),
                      log := log s @ [EvAppend p line]\<rparr>))"

text \<open>\<^verbatim>\<open>with open(p, 'r') as f: for line in f\<close>.\<close>

definition open_read :: "path \<Rightarrow> string list prog" where
  "open_read p s =
     (case files s p of
        None \<Rightarrow> raiseE OSError s
      | Some cs \<Rightarrow>
          if p \<in> locked s then raiseE OSError s
          else if list_all (\<lambda>c. case c of Line l \<Rightarrow> True | Pic a \<Rightarrow> False) cs
          then (Inr (map (\<lambda>c. case c of Line l \<Rightarrow> l | Pic a \<Rightarrow> []) cs),
                s\<lparr>log := log s @ [EvOpenRead p]\<rparr>)
          else raiseE UnicodeDecodeError (s\<lparr>log := log s @ [EvOpenRead p]\<rparr>))"

subsection \<open>\<^verbatim>\<open>load_names\<close>, \<^verbatim>\<open>read_image\<close>, \<^verbatim>\<open>inference\<close>\<close>

definition load_names :: "path \<Rightarrow> string list prog" where
  "load_names category_path =
     bindE (open_read category_path) (\<lambda>lines. retE (map strip lines))"

text \<open>When \<^verbatim>\<open>cv2.imread\<close> returned \<^verbatim>\<open>None\<close>, \<^verbatim>\<open>np.ascontiguousarray\<close> makes a
  one-dimensional array of it and \<^verbatim>\<open>permute(2, 0, 1)\<close> raises.\<close>

definition read_image :: "string \<Rightarrow> bool \<Rightarrow> tensor prog" where
  "read_image img_name is_half =
     bindE (cv2_imread (Path img_name)) (\<lambda>img.
       case img of
         None \<Rightarrow> raiseE RuntimeError
       | Some a \<Rightarrow>
           retE \<lparr>dtype = Float32, device = Cpu,
                 data = permute_2_0_1 (div255 (to_float32 a))\<rparr>)"

definition model_eval :: "unit prog" where
  "model_eval s = (Inr (), s\<lparr>net_training := False\<rparr>)"

definition model_call :: "'w ext \<Rightarrow> 'w \<Rightarrow> tensor list \<Rightarrow> prediction option list prog" where
  "model_call ext w imgs s =
     bindE (emit EvForward)
       (\<lambda>_. lift (forward ext w (net_training s) (net_fp16 s) (net_device s) imgs)) s"

definition inference ::
  "'w ext \<Rightarrow> 'w \<Rightarrow> string \<Rightarrow> device \<Rightarrow> bool \<Rightarrow> (prediction option list \<times> rat) prog" where
  "inference ext w img_name dev is_half =
     bindE (emit (EvCall ''inference'' img_name)) (\<lambda>_.
     bindE model_eval (\<lambda>_.
     bindE (read_image img_name is_half) (\<lambda>img.
     bindE (retE (img\<lparr>device := dev\<rparr>)) (\<lambda>img.
     bindE (time_now ext) (\<lambda>t1.
     bindE (model_call ext w [img]) (\<lambda>detections.
     bindE (time_now ext) (\<lambda>t2.
     bindE (emit (EvReturn ''inference'' img_name)) (\<lambda>_.
     retE (detections, t2 - t1)))))))))"

subsection \<open>\<^verbatim>\<open>overlay_boxes\<close>\<close>

text \<open>\<^verbatim>\<open>len(pred)\<close> of a dictionary is the number of its keys, whatever the
  tensors under the keys hold.\<close>

definition len_dict :: "prediction \<Rightarrow> nat" where
  "len_dict d = length (remdups (map fst d))"

definition get_boxes :: "prediction \<Rightarrow> error + rat list list" where
  "get_boxes d = (case map_of d ''boxes'' of
                    None \<Rightarrow> Inl KeyError | Some (BoxT b) \<Rightarrow> Inr b | Some _ \<Rightarrow> Inl TypeError)"

definition get_scores :: "prediction \<Rightarrow> error + rat list" where
  "get_scores d = (case map_of d ''scores'' of
                     None \<Rightarrow> Inl KeyError | Some (VecT v) \<Rightarrow> Inr v | Some _ \<Rightarrow> Inl TypeError)"

definition get_labels :: "prediction \<Rightarrow> error + int list" where
  "get_labels d = (case map_of d ''labels'' of
                     None \<Rightarrow> Inl KeyError | Some (IntT v) \<Rightarrow> Inr v | Some _ \<Rightarrow> Inl TypeError)"

definition save_path :: "args \<Rightarrow> string \<Rightarrow> path" where
  "save_path a p = joinpath (Path (output_dir a)) (name (Path p))"

definition txt_path :: "args \<Rightarrow> string \<Rightarrow> path" where
  "txt_path a p = joinpath (Path (output_dir a)) (stem (Path p))"

text \<open>The file that \<^verbatim>\<open>open(f'{txt_path}.txt', 'a')\<close> opens.\<close>

definition txt_file :: "args \<Rightarrow> string \<Rightarrow> path" where
  "txt_file a p = Path (str_path (txt_path a p) @ ''.txt'')"

text \<open>\<^verbatim>\<open>('%g ' * 5 + '\n') % (cls_name, *xywh)\<close>.\<close>

definition label_line :: "'w ext \<Rightarrow> int \<Rightarrow> rat list \<Rightarrow> string" where
  "label_line ext c xywh = concat (map (\<lambda>v. fmt_g ext v @ '' '') (of_int c # xywh)) @ [newline]"

text \<open>The loop over \<^verbatim>\<open>labels.unique()\<close>, which extends the string \<^verbatim>\<open>s\<close>.\<close>

fun print_results :: "'w ext \<Rightarrow> args \<Rightarrow> int list \<Rightarrow> string \<Rightarrow> int list \<Rightarrow> string prog" where
  "print_results ext a labels s [] = retE s"
| "print_results ext a labels s (c # cs) =
     bindE (lift (py_index (names a) c)) (\<lambda>nm.
       print_results ext a labels
         (s @ fmt_g ext (of_nat (count_list labels c)) @ '' '' @ nm @ ''s, '') cs)"

text \<open>\<^verbatim>\<open>plot_one_box\<close> draws into the array it is given. Handed \<^verbatim>\<open>None\<close>, the
  image that could not be read, its calls of \<^verbatim>\<open>cv2\<close> draw nothing and raise
  nothing.\<close>

definition draw_box ::
  "'w ext \<Rightarrow> rat list \<Rightarrow> image option \<Rightarrow> string \<Rightarrow> nat list \<Rightarrow> image option prog" where
  "draw_box ext xyxy img label color =
     (case img of
        None \<Rightarrow> retE None
      | Some a \<Rightarrow> bindE (lift (plot_one_box ext xyxy a label color 3)) (\<lambda>a'. retE (Some a')))"

text \<open>The loop over \<^verbatim>\<open>zip(boxes, scores, labels)\<close>; \<open>img\<close> is the array being drawn
  into.\<close>

fun write_results ::
  "'w ext \<Rightarrow> args \<Rightarrow> string \<Rightarrow> image option \<Rightarrow> (rat list \<times> rat \<times> int) list
     \<Rightarrow> image option prog" where
  "write_results ext a p img [] = retE img"
| "write_results ext a p img ((xyxy, conf, cls_name) # rest) =
     bindE (if save_txt a
            then bindE (lift (box_xyxy_to_cxcywh xyxy)) (\<lambda>xywh.
                   open_append (txt_file a p) (label_line ext cls_name xywh))
            else retE ()) (\<lambda>_.
     bindE (if save_img a
            then bindE (lift (py_index (names a) cls_name)) (\<lambda>nm.
                 bindE (lift (py_index (colors a) cls_name)) (\<lambda>col.
                   draw_box ext xyxy img (nm @ '' '' @ fmt_f ext 2 conf) col))
            else retE img) (\<lambda>img'.
     write_results ext a p img' rest))"

text \<open>The variables \<^verbatim>\<open>boxes\<close>, \<^verbatim>\<open>scores\<close>, \<^verbatim>\<open>labels\<close> of \<^verbatim>\<open>overlay_boxes\<close>: unbound
  (\<open>None\<close>) until the guarded branch assigns them.\<close>

type_synonym bound = "(rat list list \<times> rat list \<times> int list) option"

text \<open>The branch under \<^verbatim>\<open>if pred is not None and len(pred) > 0\<close>.\<close>

definition guarded_branch ::
  "'w ext \<Rightarrow> args \<Rightarrow> string \<Rightarrow> string \<Rightarrow> image option \<Rightarrow> prediction
     \<Rightarrow> (string \<times> image option \<times> bound) prog" where
  "guarded_branch ext a p s img pred =
     bindE (lift (get_boxes pred)) (\<lambda>b.
     bindE (retE (map (map round_half_even) b)) (\<lambda>boxes.
     bindE (lift (get_scores pred)) (\<lambda>scores.
     bindE (lift (get_labels pred)) (\<lambda>labels.
     bindE (print_results ext a labels s (unique labels)) (\<lambda>s'.
     bindE (write_results ext a p img (zip boxes (zip scores labels))) (\<lambda>img'.
     retE (s', img', Some (boxes, scores, labels))))))))"

definition guard :: "prediction option \<Rightarrow> bool" where
  "guard pred = (case pred of None \<Rightarrow> False | Some d \<Rightarrow> 0 < len_dict d)"

text \<open>The loop \<^verbatim>\<open>for i, pred in enumerate(detections)\<close>.\<close>

fun detections_loop ::
  "'w ext \<Rightarrow> args \<Rightarrow> string \<Rightarrow> rat \<Rightarrow> nat \<Rightarrow> image option \<Rightarrow> bound
     \<Rightarrow> prediction option list \<Rightarrow> bound prog" where
  "detections_loop ext a p time_consume i img bnd [] = retE bnd"
| "detections_loop ext a p time_consume i img bnd (pred # rest) =
     bindE (retE (if webcam a then fmt_g ext (of_nat i) @ '': '' else [])) (\<lambda>s.
     bindE (if guard pred then guarded_branch ext a p s img (the pred)
            else retE (s, img, bnd)) (\<lambda>(s', img', bnd').
     bindE (py_print (s' @ ''Done. ('' @ fmt_f ext 3 time_consume @ ''s)'')) (\<lambda>_.
     bindE (if save_img a \<and> mode a = ''images''
            then bindE (cv2_imwrite ext (save_path a p) img') (\<lambda>_. retE ())
            else retE ()) (\<lambda>_.
     detections_loop ext a p time_consume (Suc i) img' bnd' rest))))"

definition overlay_boxes ::
  "'w ext \<Rightarrow> prediction option list \<Rightarrow> string \<Rightarrow> rat \<Rightarrow> args
     \<Rightarrow> (rat list list \<times> rat list \<times> int list) prog" where
  "overlay_boxes ext detections p time_consume a =
     bindE (emit (EvCall ''overlay_boxes'' p)) (\<lambda>_.
     bindE (if save_img a then cv2_imread (Path p) else retE None) (\<lambda>img.
     bindE (detections_loop ext a p time_consume 0 img None detections) (\<lambda>bnd.
     bindE (case bnd of None \<Rightarrow> raiseE UnboundLocalError | Some r \<Rightarrow> retE r) (\<lambda>r.
     bindE (emit (EvReturn ''overlay_boxes'' p)) (\<lambda>_.
     retE r)))))"

subsection \<open>\<^verbatim>\<open>main\<close> and the script\<close>

text \<open>The flags of the network object the loader returns: on the CPU, in single
  precision, training or not as the loader leaves it.\<close>

definition model_init :: "bool \<Rightarrow> unit prog" where
  "model_init tr s = (Inr (), s\<lparr>net_training := tr, net_fp16 := False, net_device := Cpu\<rparr>)"

definition hub_yolov5 :: "'w ext \<Rightarrow> string \<Rightarrow> string \<Rightarrow> 'w prog" where
  "hub_yolov5 ext cfg ckpt s =
     bindE (emit (EvYolov5 cfg ckpt)) (\<lambda>_.
     bindE (lift (yolov5 ext cfg ckpt (files s))) (\<lambda>(w, tr).
     bindE (model_init tr) (\<lambda>_. retE w))) s"

definition model_to :: "device \<Rightarrow> unit prog" where
  "model_to dev s = (Inr (), s\<lparr>net_device := dev\<rparr>)"

definition model_half :: "unit prog" where
  "model_half s = (Inr (), s\<lparr>net_fp16 := True\<rparr>)"

definition load_images :: "'w ext \<Rightarrow> string \<Rightarrow> int \<Rightarrow> dataset prog" where
  "load_images ext src imgsz s =
     bindE (emit (EvLoadImages src imgsz)) (\<lambda>_. lift (LoadImages ext src imgsz (files s))) s"

text \<open>\<^verbatim>\<open>[[random.randint(0, 255) for _ in range(3)] for _ in range(len(args.names))]\<close>,
  the draws taken in order from the generator.\<close>

definition random_colors :: "'w ext \<Rightarrow> nat \<Rightarrow> nat list list" where
  "random_colors ext n = map (\<lambda>i. map (\<lambda>j. randint ext (3 * i + j) mod 255) [0..<3]) [0..<n]"

text \<open>\<^verbatim>\<open>torch.zeros((3, imgsz, imgsz), device=device)\<close>, and \<^verbatim>\<open>img.half()\<close>.\<close>

definition zeros :: "int \<Rightarrow> device \<Rightarrow> tensor prog" where
  "zeros imgsz dev =
     (if imgsz < 0 then raiseE RuntimeError
      else retE \<lparr>dtype = Float32, device = dev,
                 data = replicate 3 (replicate (nat imgsz) (replicate (nat imgsz) 0))\<rparr>)"

text \<open>The loop \<^verbatim>\<open>for data in dataset\<close> of \<^verbatim>\<open>main\<close>: each step of the iterator yields
  a path or raises.\<close>

fun run_dataset ::
  "'w ext \<Rightarrow> 'w \<Rightarrow> args \<Rightarrow> device \<Rightarrow> bool \<Rightarrow> (error + string) list \<Rightarrow> unit prog" where
  "run_dataset ext w a dev is_half [] = retE ()"
| "run_dataset ext w a dev is_half (item # rest) =
     bindE (lift item) (\<lambda>img_name.
     bindE (emit (EvYield img_name)) (\<lambda>_.
     bindE (inference ext w img_name dev is_half) (\<lambda>(model_out, time_consume).
     bindE (overlay_boxes ext model_out img_name time_consume a) (\<lambda>_.
     run_dataset ext w a dev is_half rest))))"

definition main :: "'w ext \<Rightarrow> args \<Rightarrow> unit prog" where
  "main ext args0 =
     bindE (py_print (repr_args ext args0)) (\<lambda>_.
     bindE (retE (if cuda_is_available ext \<and> gpu args0 then Cuda else Cpu)) (\<lambda>dev.
     bindE (hub_yolov5 ext (model_cfg args0) (checkpoint args0)) (\<lambda>w.
     bindE model_eval (\<lambda>_.
     bindE (model_to dev) (\<lambda>_.
     bindE (retE (args0\<lparr>webcam :=
              isnumeric (input_source args0)
              \<or> startswith (input_source args0) ''rtsp://''
              \<or> startswith (input_source args0) ''rtmp://''
              \<or> startswith (input_source args0) ''http://''
              \<or> endswith (input_source args0) ''.txt''\<rparr>)) (\<lambda>args1.
     bindE (retE False) (\<lambda>is_half.
     bindE (lift (check_img_size ext (img_size args1) (stride_max ext w))) (\<lambda>imgsz.
     bindE (if is_half then model_half else retE ()) (\<lambda>_.
     bindE (load_images ext (input_source args1) imgsz) (\<lambda>ds.
     bindE (retE (args1\<lparr>mode := ds_mode ds\<rparr>)) (\<lambda>args2.
     bindE (load_names (Path (labelmap args2))) (\<lambda>nms.
     bindE (retE (args2\<lparr>names := nms, colors := random_colors ext (length nms)\<rparr>)) (\<lambda>args3.
     bindE (time_now ext) (\<lambda>t0.
     bindE (zeros imgsz dev) (\<lambda>img.
     bindE (retE (if is_half then img\<lparr>dtype := Float16\<rparr> else img)) (\<lambda>img.
     bindE (model_call ext w [img]) (\<lambda>_.
     bindE (run_dataset ext w args3 dev is_half (ds_items ds)) (\<lambda>_.
     bindE (if save_txt args3 \<or> save_img args3
            then py_print (''Results saved to '' @ output_dir args3) else retE ()) (\<lambda>_.
     bindE (time_now ext) (\<lambda>t1.
     py_print (''Done. ('' @ fmt_f ext 3 (t1 - t0) @ ''s)'')))))))))))))))))))))"

text \<open>\<^verbatim>\<open>Path(args.output_dir).mkdir(parents=True, exist_ok=True)\<close>.\<close>

definition mkdir :: "path \<Rightarrow> unit prog" where
  "mkdir p s = (if p \<in> locked s \<or> files s p \<noteq> None then raiseE OSError s
                else emit (EvMkdir p) s)"

text \<open>The block under \<^verbatim>\<open>if __name__ == "__main__"\<close>.\<close>

definition script :: "'w ext \<Rightarrow> string list \<Rightarrow> unit prog" where
  "script ext argv =
     bindE (emit (EvParseArgs argv)) (\<lambda>_.
     bindE (lift (parse_args ext argv)) (\<lambda>a.
     bindE (if output_dir a \<noteq> [] then mkdir (Path (output_dir a)) else retE ()) (\<lambda>_.
     main ext a)))"

subsection \<open>Reading the log\<close>

text \<open>The steps of the pipeline among the events of a log, and the calls and
  returns of \<^verbatim>\<open>inference\<close> and \<^verbatim>\<open>overlay_boxes\<close> among them.\<close>

fun is_step :: "event \<Rightarrow> bool" where
  "is_step (EvParseArgs argv) = True"
| "is_step (EvYolov5 cfg ckpt) = True"
| "is_step (EvLoadImages src sz) = True"
| "is_step (EvYield p) = True"
| "is_step (EvImread p) = True"
| "is_step EvForward = True"
| "is_step (EvCall f p) = True"
| "is_step (EvReturn f p) = True"
| "is_step ev = False"

definition steps :: "event list \<Rightarrow> event list" where
  "steps l = filter is_step l"

fun is_call :: "event \<Rightarrow> bool" where
  "is_call (EvCall f p) = True"
| "is_call (EvReturn f p) = True"
| "is_call ev = False"

definition calls :: "event list \<Rightarrow> event list" where
  "calls l = filter is_call l"

fun is_raise :: "event \<Rightarrow> bool" where
  "is_raise (EvRaise e) = True"
| "is_raise ev = False"

definition raises :: "event list \<Rightarrow> event list" where
  "raises l = filter is_raise l"

text \<open>The steps of one image that is processed to the end, and of a whole run
  that is.\<close>

definition per_image :: "bool \<Rightarrow> string \<Rightarrow> event list" where
  "per_image si p =
     [EvYield p, EvCall ''inference'' p, EvImread (Path p), EvForward,
      EvReturn ''inference'' p, EvCall ''overlay_boxes'' p]
     @ (if si then [EvImread (Path p)] else [])
     @ [EvReturn ''overlay_boxes'' p]"


definition per_image_calls :: "string \<Rightarrow> event list" where
  "per_image_calls p =
     [EvCall ''inference'' p, EvReturn ''inference'' p,
      EvCall ''overlay_boxes'' p, EvReturn ''overlay_boxes'' p]"

text \<open>The paths an iterator hands out before it raises or ends.\<close>

fun yielded :: "(error + string) list \<Rightarrow> string list" where
  "yielded [] = []"
| "yielded (Inl e # rest) = []"
| "yielded (Inr p # rest) = p # yielded rest"

subsection \<open>What a call of \<^verbatim>\<open>overlay_boxes\<close> is expected to leave behind\<close>

text \<open>The contents of a file, empty when there is none; a file grows when what
  it held is still there, at its start.\<close>

definition content :: "world \<Rightarrow> path \<Rightarrow> chunk list" where
  "content s q = (case files s q of None \<Rightarrow> [] | Some cs \<Rightarrow> cs)"

definition grows :: "path \<Rightarrow> world \<Rightarrow> world \<Rightarrow> bool" where
  "grows q s s' = (case files s q of None \<Rightarrow> True
                   | Some old \<Rightarrow> (case files s' q of None \<Rightarrow> False
                                 | Some new \<Rightarrow> prefix old new))"

text \<open>The lines appended to files and the lines printed, in a log.\<close>

fun appended :: "event list \<Rightarrow> (path \<times> string) list" where
  "appended [] = []"
| "appended (EvAppend q txt # l) = (q, txt) # appended l"
| "appended (ev # l) = appended l"

fun printed :: "event list \<Rightarrow> string list" where
  "printed [] = []"
| "printed (EvPrint m # l) = m # printed l"
| "printed (ev # l) = printed l"

text \<open>The detections of a prediction that passes the guard, boxes rounded: the
  triples the loop over \<^verbatim>\<open>zip(boxes, scores, labels)\<close> runs through.\<close>

definition triples :: "prediction option \<Rightarrow> (rat list \<times> rat \<times> int) list" where
  "triples pred =
     (case pred of
        None \<Rightarrow> []
      | Some d \<Rightarrow>
          if 0 < len_dict d
          then (case (get_boxes d, get_scores d, get_labels d) of
                  (Inr b, Inr sc, Inr l) \<Rightarrow> zip (map (map round_half_even) b) (zip sc l)
                | _ \<Rightarrow> [])
          else [])"

definition all_triples :: "prediction option list \<Rightarrow> (rat list \<times> rat \<times> int) list" where
  "all_triples dets = concat (map triples dets)"

text \<open>The line of a detection in the words of the specification: five numbers,
  the class label, then the centre, the width and the height of the box.\<close>

definition detection_line :: "'w ext \<Rightarrow> rat list \<times> rat \<times> int \<Rightarrow> string" where
  "detection_line ext tr =
     (case tr of (xyxy, conf, c) \<Rightarrow>
        fmt_g ext (of_int c) @ '' ''
        @ fmt_g ext ((xyxy ! 0 + xyxy ! 2) / 2) @ '' ''
        @ fmt_g ext ((xyxy ! 1 + xyxy ! 3) / 2) @ '' ''
        @ fmt_g ext (xyxy ! 2 - xyxy ! 0) @ '' ''
        @ fmt_g ext (xyxy ! 3 - xyxy ! 1) @ '' '' @ [newline])"

text \<open>The events and the file lines of a list of detections, and the values the
  variables \<^verbatim>\<open>boxes\<close>, \<^verbatim>\<open>scores\<close>, \<^verbatim>\<open>labels\<close> take from a prediction.\<close>

definition appends_of :: "'w ext \<Rightarrow> args \<Rightarrow> string \<Rightarrow> (rat list \<times> rat \<times> int) list \<Rightarrow> event list" where
  "appends_of ext a p trs =
     (if save_txt a then map (\<lambda>tr. EvAppend (txt_file a p) (detection_line ext tr)) trs else [])"

definition lines_of :: "'w ext \<Rightarrow> (rat list \<times> rat \<times> int) list \<Rightarrow> chunk list" where
  "lines_of ext trs = map (\<lambda>tr. Line (detection_line ext tr)) trs"

definition bound_of :: "prediction option \<Rightarrow> bound" where
  "bound_of pred =
     (case pred of
        None \<Rightarrow> None
      | Some d \<Rightarrow>
          (case (get_boxes d, get_scores d, get_labels d) of
             (Inr b, Inr sc, Inr l) \<Rightarrow> Some (map (map round_half_even) b, sc, l)
           | _ \<Rightarrow> None))"

text \<open>The per-class counts of a prediction, as the printed line lists them, and
  the line printed for the prediction number \<open>i\<close>.\<close>

definition class_summary :: "'w ext \<Rightarrow> args \<Rightarrow> int list \<Rightarrow> int list \<Rightarrow> string" where
  "class_summary ext a labels cs =
     concat (map (\<lambda>c. fmt_g ext (of_nat (count_list labels c)) @ '' ''
                       @ (case py_index (names a) c of Inr nm \<Rightarrow> nm | Inl e \<Rightarrow> [])
                       @ ''s, '') cs)"

definition labels_of :: "prediction option \<Rightarrow> int list" where
  "labels_of pred = map (\<lambda>(xyxy, conf, c). c) (triples pred)"

definition done_summary :: "'w ext \<Rightarrow> args \<Rightarrow> prediction option \<Rightarrow> string" where
  "done_summary ext a pred =
     (if guard pred
      then (case pred of None \<Rightarrow> []
            | Some d \<Rightarrow> (case get_labels d of Inl e \<Rightarrow> []
                        | Inr l \<Rightarrow> class_summary ext a l (unique l)))
      else [])"

definition done_line :: "'w ext \<Rightarrow> args \<Rightarrow> rat \<Rightarrow> nat \<Rightarrow> prediction option \<Rightarrow> string" where
  "done_line ext a time_consume i pred =
     (if webcam a then fmt_g ext (of_nat i) @ '': '' else [])
     @ done_summary ext a pred
     @ ''Done. ('' @ fmt_f ext 3 time_consume @ ''s)''"

fun done_lines ::
  "'w ext \<Rightarrow> args \<Rightarrow> rat \<Rightarrow> nat \<Rightarrow> prediction option list \<Rightarrow> string list" where
  "done_lines ext a time_consume i [] = []"
| "done_lines ext a time_consume i (pred # rest) =
     done_line ext a time_consume i pred # done_lines ext a time_consume (Suc i) rest"

text \<open>The picture after the boxes of the given detections are drawn into it, one
  after the other.\<close>

fun drawn :: "'w ext \<Rightarrow> args \<Rightarrow> image \<Rightarrow> (rat list \<times> rat \<times> int) list \<Rightarrow> image" where
  "drawn ext a img [] = img"
| "drawn ext a img ((xyxy, conf, c) # rest) =
     drawn ext a
       (case plot_one_box ext xyxy img
               ((case py_index (names a) c of Inr nm \<Rightarrow> nm | Inl e \<Rightarrow> [])
                @ '' '' @ fmt_f ext 2 conf)
               (case py_index (colors a) c of Inr col \<Rightarrow> col | Inl e \<Rightarrow> []) 3 of
          Inr img' \<Rightarrow> img' | Inl e \<Rightarrow> img)
       rest"

text \<open>The picture and the state after one round of the loop over the
  predictions, when the round comes to its end.\<close>

definition drawn_opt ::
  "'w ext \<Rightarrow> args \<Rightarrow> image option \<Rightarrow> prediction option \<Rightarrow> image option" where
  "drawn_opt ext a img pred =
     (if save_img a then map_option (\<lambda>i. drawn ext a i (triples pred)) img else img)"

definition after_pred ::
  "'w ext \<Rightarrow> args \<Rightarrow> string \<Rightarrow> rat \<Rightarrow> nat \<Rightarrow> image option \<Rightarrow> prediction option
     \<Rightarrow> world \<Rightarrow> world" where
  "after_pred ext a p time_consume i img pred s =
     s\<lparr>files :=
         (if save_img a \<and> mode a = ''images'' \<and> save_path a p \<notin> locked s
          then (if save_txt a \<and> triples pred \<noteq> []
                then (files s)(txt_file a p \<mapsto>
                       content s (txt_file a p) @ lines_of ext (triples pred))
                else files s)(save_path a p \<mapsto>
                              [Pic (codec ext (save_path a p) (the (drawn_opt ext a img pred)))])
          else (if save_txt a \<and> triples pred \<noteq> []
                then (files s)(txt_file a p \<mapsto>
                       content s (txt_file a p) @ lines_of ext (triples pred))
                else files s)),
       log := log s @ appends_of ext a p (triples pred)
              @ [EvPrint (done_line ext a time_consume i pred)]
              @ (if save_img a \<and> mode a = ''images''
                 then [EvImwrite (save_path a p) (save_path a p \<notin> locked s)] else [])\<rparr>"

text \<open>Properties of every run of an operation, whether it returns or raises,
  are relations between the state before, the exception raised if any, and
  the state after. An operation has such a property when all its runs do; the
  properties used below hold of a sequence of operations when they hold of
  each (\<open>composable\<close>), so it is enough to check them on the operations that
  touch the state, which are collected by the three \<open>frame\<close> predicates: those
  of the post-processing, those of the loop over the images, and those of
  \<^verbatim>\<open>main\<close> and the script.\<close>

type_synonym outcome_rel = "world \<Rightarrow> error option \<Rightarrow> world \<Rightarrow> bool"

definition holds :: "outcome_rel \<Rightarrow> 'a prog \<Rightarrow> bool" where
  "holds R m = (\<forall>s. case m s of (Inr x, s') \<Rightarrow> R s None s' | (Inl e, s') \<Rightarrow> R s (Some e) s')"

definition composable :: "outcome_rel \<Rightarrow> bool" where
  "composable R = ((\<forall>s. R s None s) \<and> (\<forall>s t u out. R s None t \<longrightarrow> R t out u \<longrightarrow> R s out u))"

definition frame_quiet :: "'w ext \<Rightarrow> outcome_rel \<Rightarrow> bool" where
  "frame_quiet ext R =
     (composable R
      \<and> (\<forall>e. holds R (raiseE e :: unit prog))
      \<and> (\<forall>msg. holds R (py_print msg))
      \<and> (\<forall>q txt. holds R (open_append q txt))
      \<and> (\<forall>q img. holds R (cv2_imwrite ext q img))
      \<and> (\<forall>q. holds R (open_read q))
      \<and> holds R (time_now ext))"

definition frame_loop :: "'w ext \<Rightarrow> outcome_rel \<Rightarrow> bool" where
  "frame_loop ext R =
     (frame_quiet ext R
      \<and> (\<forall>f p. holds R (emit (EvCall f p)))
      \<and> (\<forall>f p. holds R (emit (EvReturn f p)))
      \<and> holds R (emit EvForward)
      \<and> (\<forall>p. holds R (emit (EvYield p)))
      \<and> (\<forall>q. holds R (cv2_imread q))
      \<and> holds R model_eval)"

definition frame_main :: "'w ext \<Rightarrow> outcome_rel \<Rightarrow> bool" where
  "frame_main ext R =
     (frame_loop ext R
      \<and> (\<forall>cfg ckpt. holds R (emit (EvYolov5 cfg ckpt)))
      \<and> (\<forall>src sz. holds R (emit (EvLoadImages src sz)))
      \<and> (\<forall>argv. holds R (emit (EvParseArgs argv)))
      \<and> (\<forall>q. holds R (emit (EvMkdir q)))
      \<and> (\<forall>dev. holds R (model_to dev))
      \<and> holds R model_half
      \<and> (\<forall>tr. holds R (model_init tr)))"


text \<open>The file \<open>q\<close> is not cut; the flags of the network are left alone, apart
  from its being put in evaluation mode; no step of the pipeline is logged.\<close>

definition growing :: "path \<Rightarrow> outcome_rel" where
  "growing q s out s' = grows q s s'"

definition same_net :: outcome_rel where
  "same_net s out s' =
     (net_fp16 s' = net_fp16 s \<and> net_device s' = net_device s
      \<and> (net_training s' \<longrightarrow> net_training s))"

definition silent :: outcome_rel where
  "silent s out s' = (steps (log s') = steps (log s))"

text \<open>The steps an operation logs: when it returns, they make up one of the
  sequences of \<open>T\<close>; when it raises, they are the start of one.\<close>

definition emits :: "'a prog \<Rightarrow> event list set \<Rightarrow> bool" where
  "emits m T =
     (\<forall>s. \<exists>X. steps (log (snd (m s))) = steps (log s) @ X
              \<and> (case fst (m s) of Inr x \<Rightarrow> X \<in> T | Inl e \<Rightarrow> (\<exists>Z\<in>T. prefix X Z)))"


text \<open>The detections that \<^verbatim>\<open>inference\<close> returns, or the exception it raises.\<close>

definition detections_of ::
  "(error + prediction option list \<times> rat) \<times> world \<Rightarrow> error + prediction option list" where
  "detections_of out = (case fst out of Inl e \<Rightarrow> Inl e | Inr (dets, t) \<Rightarrow> Inr dets)"

subsection \<open>A concrete environment\<close>

text \<open>A small instance of the libraries and of the file system, on which the
  functions above can be evaluated: a picture of one row and two pixels, which
  is the image of the data set, a second picture of the same size, a label map
  of two names, a data set in the mode \<open>md\<close> and a network that returns the
  predictions \<open>preds\<close> for every image.\<close>

fun digits :: "nat \<Rightarrow> string" where
  "digits n = (if n < 10 then [char_of (48 + n)]
               else digits (n div 10) @ [char_of (48 + n mod 10)])"

definition demo_fmt_g :: "rat \<Rightarrow> string" where
  "demo_fmt_g r = (if 0 \<le> r \<and> r = of_int \<lfloor>r\<rfloor> then digits (nat \<lfloor>r\<rfloor>) else ''?'')"

definition demo_args :: "string list \<Rightarrow> args" where
  "demo_args argv =
     \<lparr>model_cfg = ''./models/yolov5s.yaml'',
      checkpoint = ''./checkpoints/yolov5/yolov5s.pt'',
      labelmap = ''./checkpoints/yolov5/coco.names'',
      input_source = ''./.github/'',
      output_dir = ''./data-bin/output'',
      img_size = 4,
      gpu = (''--gpu'' \<in> set argv),
      save_txt = (''--save_txt'' \<in> set argv),
      save_img = (''--save_img'' \<in> set argv),
      webcam = False, mode = [], names = [], colors = []\<rparr>"

text \<open>The namespace as \<^verbatim>\<open>main\<close> hands it to \<^verbatim>\<open>overlay_boxes\<close> in this environment.\<close>

definition demo_main_args :: "string list \<Rightarrow> string \<Rightarrow> args" where
  "demo_main_args argv md =
     (demo_args argv)\<lparr>mode := md, names := [''person'', ''car''],
                        colors := [[0, 7, 14], [21, 28, 35]]\<rparr>"

definition demo_prediction :: prediction where
  "demo_prediction =
     [(''scores'', VecT [9 / 10]), (''labels'', IntT [1]),
      (''boxes'', BoxT [[1 / 2, 3 / 2, 5 / 2, 37 / 10]])]"

definition empty_prediction :: prediction where
  "empty_prediction = [(''scores'', VecT []), (''labels'', IntT []), (''boxes'', BoxT [])]"

definition demo_image :: image where
  "demo_image = [[[0, 0, 255], [255, 255, 0]]]"

definition demo_pixels :: image where
  "demo_pixels = [[[1, 2, 3], [255, 0, 51]]]"

definition demo_files :: "path \<Rightarrow> chunk list option" where
  "demo_files =
     [[''checkpoints'', ''yolov5'', ''coco.names''] \<mapsto>
        [Line (''person'' @ [newline]), Line (''car'' @ [newline])],
      [''.github'', ''a.jpg''] \<mapsto> [Pic demo_image],
      [''.github'', ''b.png''] \<mapsto> [Pic demo_pixels]]"

definition demo_world :: world where
  "demo_world =
     \<lparr>files = demo_files, locked = {}, net_training = True, net_fp16 = False,
      net_device = Cpu, ticks = 0, log = []\<rparr>"

definition demo_ext :: "string \<Rightarrow> prediction option list \<Rightarrow> unit ext" where
  "demo_ext md preds =
     \<lparr>parse_args = (\<lambda>argv. Inr (demo_args argv)),
      repr_args = (\<lambda>a. ''Namespace''),
      cuda_is_available = False,
      yolov5 = (\<lambda>cfg ckpt fs. Inr ((), True)),
      stride_max = (\<lambda>w. 2),
      check_img_size = (\<lambda>sz st. Inr sz),
      LoadImages = (\<lambda>src sz fs. Inr \<lparr>ds_mode = md, ds_items = [Inr ''.github/a.jpg'']\<rparr>),
      forward = (\<lambda>w tr hf dev imgs. Inr preds),
      plot_one_box = (\<lambda>xyxy img label color th. Inr (map (map (map (\<lambda>b. b + of_nat th))) img)),
      has_encoder = (\<lambda>p. endswith (name p) ''.jpg''),
      codec = (\<lambda>p img. img),
      fmt_g = demo_fmt_g,
      fmt_f = (\<lambda>n r. ''?''),
      clock = (\<lambda>n. of_nat n),
      randint = (\<lambda>n. 7 * n)\<rparr>"

section \<open>Properties\<close>

subsection \<open>Sequencing\<close>

lemma bindE_retE [simp]: "bindE (retE x) f = f x"
  by (rule ext) (simp add: bindE_def retE_def)

lemma bindE_Inr: "m s = (Inr x, s1) \<Longrightarrow> bindE m f s = f x s1"
  by (simp add: bindE_def)

lemma bindE_Inl: "m s = (Inl e, s1) \<Longrightarrow> bindE m f s = (Inl e, s1)"
  by (simp add: bindE_def)

subsection \<open>\<^verbatim>\<open>read_image\<close>\<close>

lemma well_shaped_nth:
  assumes "well_shaped img" "y < length img"
  shows "length (img ! y) = length (hd img)"
    and "x < length (hd img) \<Longrightarrow> length (img ! y ! x) = 3"
  using assms by (auto simp: well_shaped_def list_all_length)

lemma well_shaped_channels:
  assumes "well_shaped img"
  shows "length (hd (hd (div255 (to_float32 img)))) = 3"
proof -
  from assms obtain r rs where img: "img = r # rs" by (cases img) (auto simp: well_shaped_def)
  with assms obtain px ps where r: "r = px # ps" by (cases r) (auto simp: well_shaped_def)
  from assms img r have "length px = 3" by (simp add: well_shaped_def)
  with img r show ?thesis by (simp add: div255_def to_float32_def)
qed

lemma permuted_entry:
  assumes "well_shaped img" "c < 3" "y < length img" "x < length (hd img)"
  shows "permute_2_0_1 (div255 (to_float32 img)) ! c ! y ! x
           = float32 (rat_of_nat (unat (img ! y ! x ! c)) / 255)"
  unfolding permute_2_0_1_def well_shaped_channels[OF assms(1)]
  using assms well_shaped_nth[OF assms(1) assms(3)]
  by (simp add: div255_def to_float32_def)

lemma permuted_shape:
  assumes "well_shaped img"
  shows "length (permute_2_0_1 (div255 (to_float32 img))) = 3"
    and "c < 3 \<Longrightarrow> length (permute_2_0_1 (div255 (to_float32 img)) ! c) = length img"
    and "c < 3 \<Longrightarrow> y < length img \<Longrightarrow>
           length (permute_2_0_1 (div255 (to_float32 img)) ! c ! y) = length (hd img)"
  unfolding permute_2_0_1_def well_shaped_channels[OF assms]
  using assms well_shaped_nth(1)[OF assms]
  by (simp_all add: div255_def to_float32_def)

lemma scaled_unit: "0 \<le> (x :: rat) \<Longrightarrow> x \<le> 255 \<Longrightarrow> 0 \<le> x / 255 \<and> x / 255 \<le> 1"
  by simp

lemma byte_scaled: "0 \<le> rat_of_nat (unat (b :: 8 word)) / 255 \<and> rat_of_nat (unat b) / 255 \<le> 1"
proof (rule scaled_unit)
  show "0 \<le> rat_of_nat (unat b)" by (simp only: of_nat_0_le_iff)
  have "unat b < 2 ^ 8" using unsigned_less[of b] by simp
  then have "unat b \<le> 255" by simp
  then show "rat_of_nat (unat b) \<le> 255" by (metis of_nat_le_iff of_nat_numeral)
qed

text \<open>Rounding to float32 keeps a number between 0 and 1 there, and moves it by
  at most half a unit in the last place, which below 1 is at most
  \<open>1 / 2 ^ 24\<close>.\<close>

lemma round_half_even_whole: "round_half_even x \<in> \<int>"
  by (simp add: round_half_even_def Let_def)

lemma round_half_even_near: "\<bar>round_half_even x - x\<bar> \<le> 1 / 2"
proof -
  have "of_int \<lfloor>x\<rfloor> \<le> x" "x < of_int \<lfloor>x\<rfloor> + 1" by linarith+
  then show ?thesis by (auto simp: round_half_even_def Let_def)
qed

lemma round_half_even_le:
  assumes "x \<le> of_int N"
  shows "round_half_even x \<le> of_int N"
proof -
  have f: "of_int \<lfloor>x\<rfloor> \<le> x" by linarith
  with assms have le: "\<lfloor>x\<rfloor> \<le> N" by linarith
  show ?thesis
  proof (cases "x - of_int \<lfloor>x\<rfloor> < 1 / 2")
    case True
    with le show ?thesis by (simp add: round_half_even_def Let_def)
  next
    case False
    with assms have "rat_of_int \<lfloor>x\<rfloor> < of_int N" by linarith
    then have "\<lfloor>x\<rfloor> + 1 \<le> N" by linarith
    then have "rat_of_int (\<lfloor>x\<rfloor> + 1) \<le> of_int N" by (simp only: of_int_le_iff)
    with le show ?thesis by (simp add: round_half_even_def Let_def)
  qed
qed

lemma round_half_even_nonneg:
  assumes "0 \<le> x"
  shows "0 \<le> round_half_even x"
proof -
  from assms have "0 \<le> \<lfloor>x\<rfloor>" by simp
  then show ?thesis by (simp add: round_half_even_def Let_def)
qed

lemma binade_up_here: "q < 2 * b \<Longrightarrow> binade_up n b q = b"
  by (cases n) simp_all

lemma binade_down_power: "\<exists>k. binade_down n (1 / 2 ^ j) q = 1 / 2 ^ k"
proof (induction n arbitrary: j)
  case 0
  show ?case by auto
next
  case (Suc n)
  have e: "(1 / 2 ^ j :: rat) / 2 = 1 / 2 ^ Suc j" by simp
  show ?case
  proof (cases "1 / 2 ^ j \<le> q")
    case True
    then have "binade_down (Suc n) (1 / 2 ^ j) q = 1 / 2 ^ j" by simp
    then show ?thesis by blast
  next
    case False
    from Suc[of "Suc j"] obtain k where "binade_down n (1 / 2 ^ Suc j) q = 1 / 2 ^ k" by blast
    with False have "binade_down (Suc n) (1 / 2 ^ j) q = 1 / 2 ^ k"
      by (simp only: binade_down.simps e if_False)
    then show ?thesis by blast
  qed
qed

lemma binade_unit:
  assumes "q \<le> 1"
  shows "\<exists>k. binade q = 1 / 2 ^ k"
proof -
  consider "q < 1 / 2 ^ 126" | "\<not> q < 1 / 2 ^ 126" "1 \<le> q" | "\<not> q < 1 / 2 ^ 126" "\<not> 1 \<le> q"
    by blast
  then show ?thesis
  proof cases
    case 1
    then have "binade q = 1 / 2 ^ 126" by (simp only: binade_def if_True)
    then show ?thesis by blast
  next
    case 2
    with assms have "q < 2 * 1" by simp
    from binade_up_here[OF this, of 127] 2 have "binade q = 1 / 2 ^ 0"
      by (simp only: binade_def if_True if_False power_0 div_by_1)
    then show ?thesis by blast
  next
    case 3
    from binade_down_power[of 126 0 q] obtain k where "binade_down 126 1 q = 1 / 2 ^ k"
      by auto
    with 3 have "binade q = 1 / 2 ^ k" by (simp only: binade_def if_False)
    then show ?thesis by blast
  qed
qed

lemma float32_unit:
  assumes "0 \<le> q" "q \<le> 1"
  shows "0 \<le> float32 q \<and> float32 q \<le> 1 \<and> \<bar>float32 q - q\<bar> \<le> 1 / 2 ^ 24"
proof -
  from assms binade_unit[of "\<bar>q\<bar>"] obtain k where k: "binade \<bar>q\<bar> = 1 / 2 ^ k" by auto
  define m where "m = k + 23"
  define N :: rat where "N = 2 ^ m"
  have N: "0 < N" "N = of_int (2 ^ m)" by (simp_all add: N_def)
  have u: "binade \<bar>q\<bar> / 2 ^ 23 = 1 / N" by (simp add: k m_def N_def power_add)
  have f: "float32 q = round_half_even (q * N) / N" unfolding float32_def Let_def u by simp
  have lo: "0 \<le> round_half_even (q * N)"
    using assms(1) N(1) by (intro round_half_even_nonneg) simp
  have "q * N \<le> of_int (2 ^ m)" using assms(2) N by (simp add: mult_le_cancel_right1)
  from round_half_even_le[OF this] have hi: "round_half_even (q * N) \<le> N" by (simp only: N(2))
  have big: "2 ^ 23 \<le> N" unfolding N_def m_def by (simp add: power_add)
  have "float32 q - q = (round_half_even (q * N) - q * N) / N"
    using N(1) by (simp add: f diff_divide_distrib)
  then have "\<bar>float32 q - q\<bar> = \<bar>round_half_even (q * N) - q * N\<bar> / N"
    using N(1) by (simp add: abs_divide)
  also have "\<dots> \<le> (1 / 2) / N"
    using round_half_even_near[of "q * N"] N(1) by (intro divide_right_mono) simp_all
  also have "\<dots> \<le> (1 / 2) / 2 ^ 23"
    using big by (intro divide_left_mono) simp_all
  finally have near: "\<bar>float32 q - q\<bar> \<le> 1 / 2 ^ 24" by simp
  from lo hi N(1) near show ?thesis by (simp add: f)
qed

lemma cv2_imread_Some:
  assumes "cv2_imread p s = (Inr (Some img), s1)"
  shows "well_shaped img" and "files s p = Some [Pic img]" and "s1 = s\<lparr>log := log s @ [EvImread p]\<rparr>"
  using assms
  by (auto simp: cv2_imread_def decoded_def split: option.splits list.splits chunk.splits if_splits)

text \<open>
  Claim C6. \<^verbatim>\<open>read_image\<close> loads the file, converts the bytes to float32, divides
  every element by 255 and permutes the axes from height-width-channel to
  channel-height-width: for every image that \<^verbatim>\<open>cv2.imread\<close> loads, of H rows and
  W columns, the tensor returned is float32 and has shape (3, H, W); its entry
  at (c, y, x) is the byte of the image at (y, x, c) divided by 255 in float32,
  that is, the float32 nearest to the quotient; and every entry lies between 0
  and 1, at most \<open>1 / 2 ^ 24\<close> away from the exact quotient.
\<close>

theorem read_image_tensor:
  assumes "cv2_imread (Path img_name) s = (Inr (Some img), s1)"
  shows "\<exists>t. read_image img_name is_half s = (Inr t, s1)
           \<and> dtype t = Float32
           \<and> data t = permute_2_0_1 (div255 (to_float32 img))
           \<and> length (data t) = 3
           \<and> (\<forall>c<3. length (data t ! c) = length img
                \<and> (\<forall>y<length img. length (data t ! c ! y) = length (hd img)
                     \<and> (\<forall>x<length (hd img).
                          data t ! c ! y ! x = float32 (rat_of_nat (unat (img ! y ! x ! c)) / 255)
                          \<and> 0 \<le> data t ! c ! y ! x \<and> data t ! c ! y ! x \<le> 1
                          \<and> \<bar>data t ! c ! y ! x - rat_of_nat (unat (img ! y ! x ! c)) / 255\<bar>
                              \<le> 1 / 2 ^ 24)))"
proof -
  let ?t = "\<lparr>dtype = Float32, device = Cpu, data = permute_2_0_1 (div255 (to_float32 img))\<rparr>"
  have ws: "well_shaped img" by (rule cv2_imread_Some(1)[OF assms])
  have run: "read_image img_name is_half s = (Inr ?t, s1)"
    by (simp add: read_image_def bindE_Inr[where m="cv2_imread (Path img_name)", OF assms] retE_def)
  have unit: "0 \<le> float32 (rat_of_nat (unat b) / 255) \<and> float32 (rat_of_nat (unat b) / 255) \<le> 1
              \<and> \<bar>float32 (rat_of_nat (unat b) / 255) - rat_of_nat (unat b) / 255\<bar> \<le> 1 / 2 ^ 24"
    for b :: "8 word"
    using byte_scaled[of b] by (intro float32_unit) simp_all
  have entries: "\<forall>c<3. length (data ?t ! c) = length img
                \<and> (\<forall>y<length img. length (data ?t ! c ! y) = length (hd img)
                     \<and> (\<forall>x<length (hd img).
                          data ?t ! c ! y ! x = float32 (rat_of_nat (unat (img ! y ! x ! c)) / 255)
                          \<and> 0 \<le> data ?t ! c ! y ! x \<and> data ?t ! c ! y ! x \<le> 1
                          \<and> \<bar>data ?t ! c ! y ! x - rat_of_nat (unat (img ! y ! x ! c)) / 255\<bar>
                              \<le> 1 / 2 ^ 24))"
    using unit by (simp add: permuted_shape[OF ws] permuted_entry[OF ws])
  show ?thesis
    by (intro exI[of _ ?t] conjI run entries) (simp_all add: permuted_shape(1)[OF ws])
qed

theorem read_image_tensor_witness:
  "cv2_imread (Path ''.github/b.png'') demo_world
     = (Inr (Some demo_pixels), demo_world\<lparr>log := [EvImread [''.github'', ''b.png'']]\<rparr>)
   \<and> (\<exists>t. read_image ''.github/b.png'' False demo_world
             = (Inr t, demo_world\<lparr>log := [EvImread [''.github'', ''b.png'']]\<rparr>)
          \<and> data t = [[[8421505 / 2147483648, 1]],
                      [[8421505 / 1073741824, 0]],
                      [[12632257 / 1073741824, 13421773 / 67108864]]]
          \<and> length (data t) = 3)"
proof -
  have p: "Path ''.github/b.png'' = [''.github'', ''b.png'']"
    by code_simp
  have h: "cv2_imread (Path ''.github/b.png'') demo_world
     = (Inr (Some demo_pixels), demo_world\<lparr>log := [EvImread [''.github'', ''b.png'']]\<rparr>)"
    by (simp add: p cv2_imread_def decoded_def demo_world_def demo_files_def demo_pixels_def
          well_shaped_def)
  have d: "permute_2_0_1 (div255 (to_float32 demo_pixels))
             = [[[8421505 / 2147483648, 1]],
                [[8421505 / 1073741824, 0]],
                [[12632257 / 1073741824, 13421773 / 67108864]]]"
    by code_simp
  from read_image_tensor[OF h, of False] h d show ?thesis by auto
qed

text \<open>
  Claim C10. \<^verbatim>\<open>read_image\<close> never reads its parameter \<^verbatim>\<open>is_half\<close>: called with
  \<^verbatim>\<open>True\<close> and with \<^verbatim>\<open>False\<close> it is the same operation, so is \<^verbatim>\<open>inference\<close>, which
  hands the flag to nothing else, and the tensor \<^verbatim>\<open>read_image\<close> returns is
  float32 whatever the flag.
\<close>

theorem read_image_ignores_is_half:
  "read_image img_name True = read_image img_name False
   \<and> inference ext w img_name dev True = inference ext w img_name dev False
   \<and> (case fst (read_image img_name is_half s) of Inl e \<Rightarrow> True | Inr t \<Rightarrow> dtype t = Float32)"
  by (simp add: read_image_def inference_def bindE_def cv2_imread_def retE_def raiseE_def
           split: option.splits)

subsection \<open>Operations that return\<close>

lemma bindE_Inr_iff:
  "bindE m f s = (Inr y, s') \<longleftrightarrow> (\<exists>x s1. m s = (Inr x, s1) \<and> f x s1 = (Inr y, s'))"
  by (auto simp: bindE_def split: prod.splits sum.splits)

lemma retE_Inr_iff [simp]: "retE x s = (Inr y, s1) \<longleftrightarrow> y = x \<and> s1 = s"
  by (auto simp: retE_def)

lemma raiseE_Inr_iff [simp]: "raiseE e s = (Inr y, s1) \<longleftrightarrow> False"
  by (simp add: raiseE_def)

lemma lift_Inr_iff [simp]: "lift v s = (Inr x, s1) \<longleftrightarrow> v = Inr x \<and> s1 = s"
  by (cases v) (auto simp: lift_def)

lemma emit_Inr_iff: "emit ev s = (Inr u, s1) \<longleftrightarrow> s1 = s\<lparr>log := log s @ [ev]\<rparr>"
  by (auto simp: emit_def)

lemma open_append_Inr_iff:
  "open_append q txt s = (Inr u, s1) \<longleftrightarrow>
     q \<notin> locked s \<and>
     s1 = s\<lparr>files := (files s)(q \<mapsto> content s q @ [Line txt]),
            log := log s @ [EvAppend q txt]\<rparr>"
  by (auto simp: open_append_def content_def)

lemma cv2_imwrite_Inr_iff:
  "cv2_imwrite ext q img s = (Inr b, s1) \<longleftrightarrow>
     (\<exists>i. img = Some i \<and> has_encoder ext q \<and>
        (if q \<in> locked s then b = False \<and> s1 = s\<lparr>log := log s @ [EvImwrite q False]\<rparr>
         else b = True \<and> s1 = s\<lparr>files := (files s)(q \<mapsto> [Pic (codec ext q i)]),
                                   log := log s @ [EvImwrite q True]\<rparr>))"
  by (cases img) (auto simp: cv2_imwrite_def)

lemma draw_box_Inr_iff:
  "draw_box ext xyxy img label col s = (Inr img', s1) \<longleftrightarrow>
     (img = None \<and> img' = None \<and> s1 = s)
     \<or> (\<exists>i i'. img = Some i \<and> plot_one_box ext xyxy i label col 3 = Inr i'
           \<and> img' = Some i' \<and> s1 = s)"
  by (cases img) (auto simp: draw_box_def bindE_Inr_iff)

lemma box_xyxy_to_cxcywh_Inr:
  assumes "box_xyxy_to_cxcywh xyxy = Inr xywh"
  shows "label_line ext c xywh = detection_line ext (xyxy, conf, c)"
  using assms
  by (auto simp: box_xyxy_to_cxcywh_def label_line_def detection_line_def
           split: list.splits)

lemma py_index_Inr: "py_index xs i = Inr x \<Longrightarrow> (case py_index xs i of Inr y \<Rightarrow> y | Inl e \<Rightarrow> d) = x"
  by simp

subsection \<open>The loop over the detections of one prediction\<close>

lemma write_results_Inr:
  assumes "write_results ext a p img trs s = (Inr img', s')"
  shows "s' = s\<lparr>files := (if save_txt a \<and> trs \<noteq> []
                          then (files s)(txt_file a p \<mapsto> content s (txt_file a p) @ lines_of ext trs)
                          else files s),
                log := log s @ appends_of ext a p trs\<rparr>
         \<and> img' = (if save_img a then map_option (\<lambda>i. drawn ext a i trs) img else img)"
  using assms
proof (induction trs arbitrary: img s)
  case Nil
  then show ?case by (cases img) (simp_all add: appends_of_def)
next
  case (Cons tr rest)
  obtain xyxy conf c where tr: "tr = (xyxy, conf, c)" by (cases tr)
  from Cons.prems obtain s1 img1 where
    wtxt: "(if save_txt a
            then bindE (lift (box_xyxy_to_cxcywh xyxy)) (\<lambda>xywh.
                   open_append (txt_file a p) (label_line ext c xywh))
            else retE ()) s = (Inr (), s1)"
    and drw: "(if save_img a
            then bindE (lift (py_index (names a) c)) (\<lambda>nm.
                 bindE (lift (py_index (colors a) c)) (\<lambda>col.
                   draw_box ext xyxy img (nm @ '' '' @ fmt_f ext 2 conf) col))
            else retE img) s1 = (Inr img1, s1)"
    and rest: "write_results ext a p img1 rest s1 = (Inr img', s')"
    unfolding tr write_results.simps bindE_Inr_iff
    by (auto simp: bindE_Inr_iff draw_box_Inr_iff split: if_splits)
  have s1: "s1 = s\<lparr>files := (if save_txt a
                          then (files s)(txt_file a p \<mapsto> content s (txt_file a p) @ lines_of ext [tr])
                          else files s),
                log := log s @ appends_of ext a p [tr]\<rparr>"
    using wtxt
    by (auto simp: bindE_Inr_iff open_append_Inr_iff appends_of_def lines_of_def tr
                   box_xyxy_to_cxcywh_Inr[where conf=conf] split: if_splits)
  have img1: "img1 = (if save_img a then map_option (\<lambda>i. drawn ext a i [tr]) img else img)"
    using drw
    by (auto simp: bindE_Inr_iff draw_box_Inr_iff tr split: if_splits)
  have d: "\<And>i. drawn ext a (drawn ext a i [tr]) rest = drawn ext a i (tr # rest)"
    by (simp add: tr)
  from Cons.IH[OF rest] show ?case
    unfolding s1 img1
    by (cases img) (auto simp: appends_of_def lines_of_def content_def d)
qed


lemma print_results_Inr:
  assumes "print_results ext a labels s0 cs s = (Inr str, s')"
  shows "s' = s \<and> str = s0 @ class_summary ext a labels cs"
  using assms
proof (induction cs arbitrary: s0 s)
  case Nil
  then show ?case by (simp add: class_summary_def)
next
  case (Cons c cs)
  from Cons.prems obtain nm where
    nm: "py_index (names a) c = Inr nm"
    and rest: "print_results ext a labels
                 (s0 @ fmt_g ext (of_nat (count_list labels c)) @ '' '' @ nm @ ''s, '') cs s
               = (Inr str, s')"
    by (auto simp: bindE_Inr_iff)
  from Cons.IH[OF rest] nm show ?case by (simp add: class_summary_def)
qed

lemma guarded_branch_Inr:
  assumes "guarded_branch ext a p s0 img d s = (Inr (str, img', bnd), s')" "guard (Some d)"
  shows "s' = s\<lparr>files := (if save_txt a \<and> triples (Some d) \<noteq> []
                          then (files s)(txt_file a p \<mapsto>
                                 content s (txt_file a p) @ lines_of ext (triples (Some d)))
                          else files s),
                log := log s @ appends_of ext a p (triples (Some d))\<rparr>"
    and "img' = (if save_img a then map_option (\<lambda>i. drawn ext a i (triples (Some d))) img
                 else img)"
    and "bnd = bound_of (Some d)" and "bnd \<noteq> None"
    and "str = s0 @ done_summary ext a (Some d)"
proof -
  from assms(1) obtain b sc l s1 where
    b: "get_boxes d = Inr b" and sc: "get_scores d = Inr sc" and l: "get_labels d = Inr l"
    and pr: "print_results ext a l s0 (unique l) s = (Inr str, s1)"
    and wr: "write_results ext a p img (zip (map (map round_half_even) b) (zip sc l)) s1
             = (Inr img', s')"
    and bnd: "bnd = Some (map (map round_half_even) b, sc, l)"
    by (auto simp: guarded_branch_def bindE_Inr_iff)
  have tr: "triples (Some d) = zip (map (map round_half_even) b) (zip sc l)"
    using assms(2) by (simp add: triples_def guard_def b sc l)
  from print_results_Inr[OF pr] have s1: "s1 = s"
    and str: "str = s0 @ class_summary ext a l (unique l)" by simp_all
  from write_results_Inr[OF wr[unfolded s1]] show
    "s' = s\<lparr>files := (if save_txt a \<and> triples (Some d) \<noteq> []
                          then (files s)(txt_file a p \<mapsto>
                                 content s (txt_file a p) @ lines_of ext (triples (Some d)))
                          else files s),
                log := log s @ appends_of ext a p (triples (Some d))\<rparr>"
    and "img' = (if save_img a then map_option (\<lambda>i. drawn ext a i (triples (Some d))) img
                 else img)"
    unfolding tr by simp_all
  show "bnd = bound_of (Some d)" "bnd \<noteq> None" by (simp_all add: bnd bound_of_def b sc l)
  show "str = s0 @ done_summary ext a (Some d)"
    using assms(2) by (simp add: str done_summary_def l)
qed


lemma triples_no_guard: "\<not> guard pred \<Longrightarrow> triples pred = []"
  by (cases pred) (simp_all add: guard_def triples_def)

lemma detections_loop_step:
  assumes "detections_loop ext a p t i img bnd (pred # rest) s = (Inr bnd', s')"
  shows "detections_loop ext a p t (Suc i) (drawn_opt ext a img pred)
           (if guard pred then bound_of pred else bnd) rest (after_pred ext a p t i img pred s)
         = (Inr bnd', s')"
    and "guard pred \<Longrightarrow> bound_of pred \<noteq> None"
    and "save_img a \<Longrightarrow> mode a = ''images'' \<Longrightarrow>
           drawn_opt ext a img pred \<noteq> None \<and> has_encoder ext (save_path a p)"
proof -
  let ?s0 = "if webcam a then fmt_g ext (of_nat i) @ '': '' else []"
  from assms obtain str img1 bnd1 s1 s2 s3 where
    br: "(if guard pred then guarded_branch ext a p ?s0 img (the pred)
          else retE (?s0, img, bnd)) s = (Inr (str, img1, bnd1), s1)"
    and pr: "py_print (str @ ''Done. ('' @ fmt_f ext 3 t @ ''s)'') s1 = (Inr (), s2)"
    and wr: "(if save_img a \<and> mode a = ''images''
              then bindE (cv2_imwrite ext (save_path a p) img1) (\<lambda>_. retE ())
              else retE ()) s2 = (Inr (), s3)"
    and rest: "detections_loop ext a p t (Suc i) img1 bnd1 rest s3 = (Inr bnd', s')"
    by (auto simp: bindE_Inr_iff simp del: retE_Inr_iff split: prod.splits)
  have s1: "s1 = s\<lparr>files := (if save_txt a \<and> triples pred \<noteq> []
                          then (files s)(txt_file a p \<mapsto>
                                 content s (txt_file a p) @ lines_of ext (triples pred))
                          else files s),
                log := log s @ appends_of ext a p (triples pred)\<rparr>"
    and img1: "img1 = (if save_img a then map_option (\<lambda>i. drawn ext a i (triples pred)) img
                       else img)"
    and bnd1: "bnd1 = (if guard pred then bound_of pred else bnd)"
    and ok: "guard pred \<Longrightarrow> bound_of pred \<noteq> None"
    and str: "str = ?s0 @ done_summary ext a pred"
  proof -
    show "s1 = s\<lparr>files := (if save_txt a \<and> triples pred \<noteq> []
                          then (files s)(txt_file a p \<mapsto>
                                 content s (txt_file a p) @ lines_of ext (triples pred))
                          else files s),
                log := log s @ appends_of ext a p (triples pred)\<rparr>"
    proof (cases "guard pred")
      case True
      then obtain d where d: "pred = Some d" by (cases pred) (auto simp: guard_def)
      from br True guarded_branch_Inr(1)[of ext a p ?s0 img d s str img1 bnd1 s1]
      show ?thesis by (simp add: d)
    next
      case False
      with br show ?thesis by (simp add: triples_no_guard appends_of_def)
    qed
    show "img1 = (if save_img a then map_option (\<lambda>i. drawn ext a i (triples pred)) img
                       else img)"
    proof (cases "guard pred")
      case True
      then obtain d where d: "pred = Some d" by (cases pred) (auto simp: guard_def)
      from br True guarded_branch_Inr(2)[of ext a p ?s0 img d s str img1 bnd1 s1]
      show ?thesis by (simp add: d)
    next
      case False
      with br show ?thesis by (cases img) (simp_all add: triples_no_guard)
    qed
    show "bnd1 = (if guard pred then bound_of pred else bnd)"
    proof (cases "guard pred")
      case True
      then obtain d where d: "pred = Some d" by (cases pred) (auto simp: guard_def)
      from br True guarded_branch_Inr(3)[of ext a p ?s0 img d s str img1 bnd1 s1]
      show ?thesis by (simp add: d)
    next
      case False
      with br show ?thesis by simp
    qed
    show "guard pred \<Longrightarrow> bound_of pred \<noteq> None"
    proof -
      assume g: "guard pred"
      then obtain d where d: "pred = Some d" by (cases pred) (auto simp: guard_def)
      from br g guarded_branch_Inr(3,4)[of ext a p ?s0 img d s str img1 bnd1 s1]
      show ?thesis by (simp add: d)
    qed
    show "str = ?s0 @ done_summary ext a pred"
    proof (cases "guard pred")
      case True
      then obtain d where d: "pred = Some d" by (cases pred) (auto simp: guard_def)
      from br True guarded_branch_Inr(5)[of ext a p ?s0 img d s str img1 bnd1 s1]
      show ?thesis by (simp add: d)
    next
      case False
      with br show ?thesis by (simp add: done_summary_def)
    qed
  qed
  have s2: "s2 = s1\<lparr>log := log s1 @ [EvPrint (done_line ext a t i pred)]\<rparr>"
    using pr by (simp add: py_print_def emit_Inr_iff str done_line_def)
  have enc: "save_img a \<Longrightarrow> mode a = ''images'' \<Longrightarrow> img1 \<noteq> None \<and> has_encoder ext (save_path a p)"
    using wr by (auto simp: bindE_Inr_iff cv2_imwrite_Inr_iff)
  have s3: "s3 = (if save_img a \<and> mode a = ''images''
                  then (if save_path a p \<in> locked s2
                        then s2\<lparr>log := log s2 @ [EvImwrite (save_path a p) False]\<rparr>
                        else s2\<lparr>files := (files s2)(save_path a p \<mapsto>
                                           [Pic (codec ext (save_path a p) (the img1))]),
                               log := log s2 @ [EvImwrite (save_path a p) True]\<rparr>)
                  else s2)"
    using wr by (auto simp: bindE_Inr_iff cv2_imwrite_Inr_iff split: if_splits)
  have img1': "img1 = drawn_opt ext a img pred"
    by (simp add: img1 drawn_opt_def)
  have "s3 = after_pred ext a p t i img pred s"
    unfolding s3 s2 s1 after_pred_def img1'[symmetric] by simp
  with rest bnd1 img1' show "detections_loop ext a p t (Suc i) (drawn_opt ext a img pred)
           (if guard pred then bound_of pred else bnd) rest (after_pred ext a p t i img pred s)
         = (Inr bnd', s')" by simp
  show "guard pred \<Longrightarrow> bound_of pred \<noteq> None" by (rule ok)
  show "save_img a \<Longrightarrow> mode a = ''images'' \<Longrightarrow>
           drawn_opt ext a img pred \<noteq> None \<and> has_encoder ext (save_path a p)"
    using enc img1' by simp
qed

lemma appended_append [simp]: "appended (l1 @ l2) = appended l1 @ appended l2"
  by (induction l1 rule: appended.induct) simp_all

lemma printed_append [simp]: "printed (l1 @ l2) = printed l1 @ printed l2"
  by (induction l1 rule: printed.induct) simp_all

lemma steps_simps [simp]:
  "steps [] = []"
  "steps (ev # l) = (if is_step ev then ev # steps l else steps l)"
  "steps (l1 @ l2) = steps l1 @ steps l2"
  by (simp_all add: steps_def)

lemma raises_simps [simp]:
  "raises [] = []"
  "raises (ev # l) = (if is_raise ev then ev # raises l else raises l)"
  "raises (l1 @ l2) = raises l1 @ raises l2"
  by (simp_all add: raises_def)

lemma calls_simps [simp]:
  "calls [] = []"
  "calls (ev # l) = (if is_call ev then ev # calls l else calls l)"
  "calls (l1 @ l2) = calls l1 @ calls l2"
  by (simp_all add: calls_def)

lemma map_EvAppend_projections [simp]:
  "appended (map (\<lambda>tr. EvAppend q (f tr)) trs) = map (\<lambda>tr. (q, f tr)) trs"
  "printed (map (\<lambda>tr. EvAppend q (f tr)) trs) = []"
  "filter is_step (map (\<lambda>tr. EvAppend q (f tr)) trs) = []"
  "filter is_raise (map (\<lambda>tr. EvAppend q (f tr)) trs) = []"
  by (induction trs) simp_all

lemma appends_of_projections [simp]:
  "appended (appends_of ext a p trs)
     = (if save_txt a then map (\<lambda>tr. (txt_file a p, detection_line ext tr)) trs else [])"
  "printed (appends_of ext a p trs) = []"
  "steps (appends_of ext a p trs) = []"
  "raises (appends_of ext a p trs) = []"
  by (simp_all add: appends_of_def steps_def raises_def)

lemma after_pred_fields [simp]:
  "locked (after_pred ext a p t i img pred s) = locked s"
  "net_training (after_pred ext a p t i img pred s) = net_training s"
  "net_fp16 (after_pred ext a p t i img pred s) = net_fp16 s"
  "net_device (after_pred ext a p t i img pred s) = net_device s"
  "ticks (after_pred ext a p t i img pred s) = ticks s"
  by (simp_all add: after_pred_def)

lemma after_pred_log [simp]:
  "appended (log (after_pred ext a p t i img pred s))
     = appended (log s)
       @ (if save_txt a then map (\<lambda>tr. (txt_file a p, detection_line ext tr)) (triples pred)
          else [])"
  "printed (log (after_pred ext a p t i img pred s))
     = printed (log s) @ [done_line ext a t i pred]"
  "steps (log (after_pred ext a p t i img pred s)) = steps (log s)"
  "raises (log (after_pred ext a p t i img pred s)) = raises (log s)"
  by (simp_all add: after_pred_def)

lemma all_triples_simps [simp]:
  "all_triples [] = []"
  "all_triples (pred # rest) = triples pred @ all_triples rest"
  by (simp_all add: all_triples_def)

lemma detections_loop_Nil_Inr [simp]:
  "detections_loop ext a p t i img bnd [] s = (Inr bnd', s') \<longleftrightarrow> bnd' = bnd \<and> s' = s"
  by auto

lemma detections_loop_log:
  assumes "detections_loop ext a p t i img bnd dets s = (Inr bnd', s')"
  shows "appended (log s')
           = appended (log s)
             @ (if save_txt a
                then map (\<lambda>tr. (txt_file a p, detection_line ext tr)) (all_triples dets)
                else [])"
    and "printed (log s') = printed (log s) @ done_lines ext a t i dets"
    and "steps (log s') = steps (log s)"
    and "raises (log s') = raises (log s)"
  using assms
proof (induction dets arbitrary: i img bnd s)
  case Nil
  { case 1 then show ?case by simp }
  { case 2 then show ?case by simp }
  { case 3 then show ?case by simp }
  { case 4 then show ?case by simp }
next
  case (Cons pred rest)
  { case 1 from Cons.IH(1)[OF detections_loop_step(1)[OF 1]] show ?case by simp }
  { case 2 from Cons.IH(2)[OF detections_loop_step(1)[OF 2]] show ?case by simp }
  { case 3 from Cons.IH(3)[OF detections_loop_step(1)[OF 3]] show ?case by simp }
  { case 4 from Cons.IH(4)[OF detections_loop_step(1)[OF 4]] show ?case by simp }
qed

lemma detections_loop_fields:
  assumes "detections_loop ext a p t i img bnd dets s = (Inr bnd', s')"
  shows "locked s' = locked s \<and> net_training s' = net_training s \<and> net_fp16 s' = net_fp16 s
         \<and> net_device s' = net_device s \<and> ticks s' = ticks s"
  using assms
proof (induction dets arbitrary: i img bnd s)
  case Nil
  then show ?case by simp
next
  case (Cons pred rest)
  from Cons.IH[OF detections_loop_step(1)[OF Cons.prems]] show ?case by simp
qed

lemma detections_loop_bound:
  assumes "detections_loop ext a p t i img bnd dets s = (Inr bnd', s')"
  shows "bnd' = (case filter guard dets of [] \<Rightarrow> bnd | g # gs \<Rightarrow> bound_of (last (g # gs)))"
    and "filter guard dets \<noteq> [] \<Longrightarrow> bnd' \<noteq> None"
  using assms
proof (induction dets arbitrary: i img bnd s)
  case Nil
  { case 1 then show ?case by simp }
  { case 2 then show ?case by simp }
next
  case (Cons pred rest)
  { case 1
    from Cons.IH(1)[OF detections_loop_step(1)[OF 1]] show ?case
      by (simp split: list.splits) }
  { case 2
    note st = detections_loop_step[OF 2(2)]
    show ?case
    proof (cases "filter guard rest = []")
      case True
      with 2(1) have g: "guard pred" by (simp split: if_splits)
      from Cons.IH(1)[OF st(1)] True g st(2) show ?thesis by simp
    next
      case False
      from Cons.IH(2)[OF False st(1)] show ?thesis .
    qed }
qed

lemma lines_of_simps [simp]:
  "lines_of ext [] = []"
  "lines_of ext (xs @ ys) = lines_of ext xs @ lines_of ext ys"
  by (simp_all add: lines_of_def)

lemma drawn_append: "drawn ext a i (xs @ ys) = drawn ext a (drawn ext a i xs) ys"
  by (induction xs arbitrary: i) auto

lemma content_after_pred:
  assumes "\<not> (save_img a \<and> mode a = ''images'' \<and> save_path a p \<notin> locked s)
           \<or> q \<noteq> save_path a p"
  shows "files (after_pred ext a p t i img pred s) q
         = (if q = txt_file a p \<and> save_txt a \<and> triples pred \<noteq> []
            then Some (content s q @ lines_of ext (triples pred)) else files s q)"
  using assms by (auto simp: after_pred_def)

lemma detections_loop_files:
  assumes "detections_loop ext a p t i img bnd dets s = (Inr bnd', s')"
    and "\<not> (save_img a \<and> mode a = ''images'' \<and> save_path a p \<notin> locked s)
         \<or> q \<noteq> save_path a p"
  shows "files s' q
         = (if q = txt_file a p \<and> save_txt a \<and> all_triples dets \<noteq> []
            then Some (content s q @ lines_of ext (all_triples dets)) else files s q)"
  using assms
proof (induction dets arbitrary: i img bnd s)
  case Nil
  then show ?case by simp
next
  case (Cons pred rest)
  have F: "files (after_pred ext a p t i img pred s) q
         = (if q = txt_file a p \<and> save_txt a \<and> triples pred \<noteq> []
            then Some (content s q @ lines_of ext (triples pred)) else files s q)"
    by (rule content_after_pred[OF Cons.prems(2)])
  have C: "content (after_pred ext a p t i img pred s) q
         = (if q = txt_file a p \<and> save_txt a \<and> triples pred \<noteq> []
            then content s q @ lines_of ext (triples pred) else content s q)"
    by (simp add: content_def F)
  have L: "\<not> (save_img a \<and> mode a = ''images''
              \<and> save_path a p \<notin> locked (after_pred ext a p t i img pred s))
           \<or> q \<noteq> save_path a p"
    using Cons.prems(2) by simp
  note IH = Cons.IH[OF detections_loop_step(1)[OF Cons.prems(1)] L]
  show ?case
  proof (cases "q = txt_file a p")
    case True
    from IH F C show ?thesis unfolding True by auto
  next
    case False
    from IH F C show ?thesis by auto
  qed
qed

lemma detections_loop_image:
  assumes "detections_loop ext a p t i img bnd dets s = (Inr bnd', s')"
    and "save_img a" "mode a = ''images''" "dets \<noteq> []" "save_path a p \<notin> locked s"
  shows "\<exists>i0. img = Some i0
           \<and> files s' (save_path a p) = Some [Pic (codec ext (save_path a p)
                                              (drawn ext a i0 (all_triples dets)))]"
  using assms(1,4,5)
proof (induction dets arbitrary: i img bnd s)
  case Nil
  then show ?case by simp
next
  case (Cons pred rest)
  note st = detections_loop_step[OF Cons.prems(1)]
  from st(3)[OF assms(2,3)] obtain i0 where i0: "img = Some i0"
    by (cases img) (auto simp: drawn_opt_def split: if_splits)
  then have d: "drawn_opt ext a img pred = Some (drawn ext a i0 (triples pred))"
    by (simp add: drawn_opt_def assms(2))
  show ?case
  proof (cases rest)
    case Nil
    with st(1) Cons.prems(3) show ?thesis
      by (simp add: i0 d[unfolded i0] after_pred_def assms(2,3))
  next
    case (Cons pred' rest')
    then have ne: "rest \<noteq> []" by simp
    from Cons.prems(3) have lk: "save_path a p \<notin> locked (after_pred ext a p t i img pred s)"
      by simp
    from Cons.IH[OF st(1) ne lk] show ?thesis
      by (simp add: i0 d[unfolded i0] drawn_append)
  qed
qed


subsection \<open>\<^verbatim>\<open>overlay_boxes\<close> as a whole\<close>

lemma overlay_boxes_Inr:
  assumes "overlay_boxes ext dets p t a s = (Inr r, s')"
  obtains s2 where
    "detections_loop ext a p t 0 (if save_img a then decoded s (Path p) else None) None dets
       (s\<lparr>log := log s @ EvCall ''overlay_boxes'' p
                       # (if save_img a then [EvImread (Path p)] else [])\<rparr>)
     = (Inr (Some r), s2)"
    "s' = s2\<lparr>log := log s2 @ [EvReturn ''overlay_boxes'' p]\<rparr>"
proof -
  from assms obtain s1 img s1' bnd s2 where
    c: "emit (EvCall ''overlay_boxes'' p) s = (Inr (), s1)"
    and rd: "(if save_img a then cv2_imread (Path p) else retE None) s1 = (Inr img, s1')"
    and lp: "detections_loop ext a p t 0 img None dets s1' = (Inr bnd, s2)"
    and b: "(case bnd of None \<Rightarrow> raiseE UnboundLocalError | Some r \<Rightarrow> retE r) s2 = (Inr r, s2)"
    and e: "emit (EvReturn ''overlay_boxes'' p) s2 = (Inr (), s')"
    by (auto simp: overlay_boxes_def bindE_Inr_iff split: option.splits)
  from b have bnd: "bnd = Some r" by (cases bnd) simp_all
  from c have s1: "s1 = s\<lparr>log := log s @ [EvCall ''overlay_boxes'' p]\<rparr>"
    by (simp add: emit_Inr_iff)
  from rd have img: "img = (if save_img a then decoded s (Path p) else None)"
    and s1': "s1' = s\<lparr>log := log s @ EvCall ''overlay_boxes'' p
                       # (if save_img a then [EvImread (Path p)] else [])\<rparr>"
    by (auto simp: s1 cv2_imread_def decoded_def split: if_splits)
  from e have e': "s' = s2\<lparr>log := log s2 @ [EvReturn ''overlay_boxes'' p]\<rparr>"
    by (simp add: emit_Inr_iff)
  show thesis by (rule that[OF lp[unfolded bnd img s1'] e'])
qed

lemma overlay_boxes_bound:
  assumes "overlay_boxes ext dets p t a s = (Inr r, s')"
  shows "filter guard dets \<noteq> []" and "bound_of (last (filter guard dets)) = Some r"
proof -
  from overlay_boxes_Inr[OF assms] obtain s2 where
    lp: "detections_loop ext a p t 0 (if save_img a then decoded s (Path p) else None) None dets
       (s\<lparr>log := log s @ EvCall ''overlay_boxes'' p
                       # (if save_img a then [EvImread (Path p)] else [])\<rparr>)
     = (Inr (Some r), s2)"
    by blast
  from detections_loop_bound(1)[OF lp] show "filter guard dets \<noteq> []"
    by (auto split: list.splits)
  with detections_loop_bound(1)[OF lp] show "bound_of (last (filter guard dets)) = Some r"
    by (auto split: list.splits)
qed

lemma box_xyxy_to_cxcywh_length: "box_xyxy_to_cxcywh b = Inr x \<Longrightarrow> length b = 4"
  by (auto simp: box_xyxy_to_cxcywh_def split: list.splits)

lemma write_results_boxes:
  assumes "write_results ext a p img trs s = (Inr img', s')" "save_txt a"
  shows "list_all (\<lambda>tr. length (fst tr) = 4) trs"
  using assms(1)
proof (induction trs arbitrary: img s)
  case Nil
  then show ?case by simp
next
  case (Cons tr rest)
  obtain xyxy conf c where tr: "tr = (xyxy, conf, c)" by (cases tr)
  from Cons.prems assms(2) obtain xywh s1 img1 where
    b: "box_xyxy_to_cxcywh xyxy = Inr xywh"
    and rest: "write_results ext a p img1 rest s1 = (Inr img', s')"
    unfolding tr write_results.simps by (auto simp: bindE_Inr_iff split: if_splits)
  from Cons.IH[OF rest] box_xyxy_to_cxcywh_length[OF b] show ?case by (simp add: tr)
qed

lemma guarded_branch_boxes:
  assumes "guarded_branch ext a p s0 img d s = (Inr out, s')" "guard (Some d)" "save_txt a"
  shows "list_all (\<lambda>tr. length (fst tr) = 4) (triples (Some d))"
proof -
  from assms(1) obtain b sc l s1 img' where
    b: "get_boxes d = Inr b" and sc: "get_scores d = Inr sc" and l: "get_labels d = Inr l"
    and wr: "write_results ext a p img (zip (map (map round_half_even) b) (zip sc l)) s1
             = (Inr img', s')"
    by (auto simp: guarded_branch_def bindE_Inr_iff)
  have tr: "triples (Some d) = zip (map (map round_half_even) b) (zip sc l)"
    using assms(2) by (simp add: triples_def guard_def b sc l)
  from write_results_boxes[OF wr assms(3)] show ?thesis by (simp add: tr)
qed

lemma detections_loop_step_boxes:
  assumes "detections_loop ext a p t i img bnd (pred # rest) s = (Inr bnd', s')" "save_txt a"
  shows "list_all (\<lambda>tr. length (fst tr) = 4) (triples pred)"
proof (cases "guard pred")
  case True
  then obtain d where d: "pred = Some d" by (cases pred) (auto simp: guard_def)
  from assms(1) True obtain s0 out s1 where
    "guarded_branch ext a p s0 img d s = (Inr out, s1)"
    by (auto simp: bindE_Inr_iff d simp del: retE_Inr_iff split: prod.splits)
  from guarded_branch_boxes[OF this True[unfolded d] assms(2)] show ?thesis by (simp add: d)
next
  case False
  then show ?thesis by (simp add: triples_no_guard)
qed

lemma detections_loop_boxes:
  assumes "detections_loop ext a p t i img bnd dets s = (Inr bnd', s')" "save_txt a"
  shows "list_all (\<lambda>tr. length (fst tr) = 4) (all_triples dets)"
  using assms(1)
proof (induction dets arbitrary: i img bnd s)
  case Nil
  then show ?case by simp
next
  case (Cons pred rest)
  from Cons.IH[OF detections_loop_step(1)[OF Cons.prems]]
       detections_loop_step_boxes[OF Cons.prems assms(2)]
  show ?case by simp
qed

lemma bound_of_Some:
  assumes "bound_of pred = Some r"
  shows "\<exists>d b sc l. pred = Some d \<and> get_boxes d = Inr b \<and> get_scores d = Inr sc
           \<and> get_labels d = Inr l \<and> r = (map (map round_half_even) b, sc, l)"
  using assms by (auto simp: bound_of_def split: option.splits sum.splits)

lemma world_log_update [simp]:
  "content (s\<lparr>log := l\<rparr>) q = content s q"
  "decoded (s\<lparr>log := l\<rparr>) q = decoded s q"
  by (simp_all add: content_def decoded_def)






lemma detections_loop_preds:
  assumes "detections_loop ext a p t i img bnd dets s = (Inr bnd', s')"
  shows "list_all (\<lambda>pred. guard pred \<longrightarrow> bound_of pred \<noteq> None) dets"
  using assms
proof (induction dets arbitrary: i img bnd s)
  case Nil
  then show ?case by simp
next
  case (Cons pred rest)
  from Cons.IH[OF detections_loop_step(1)[OF Cons.prems]] detections_loop_step(2)[OF Cons.prems]
  show ?case by simp
qed

lemma triples_bound_of:
  assumes "guard (Some d)" "bound_of (Some d) \<noteq> None"
  shows "\<exists>b sc l. get_boxes d = Inr b \<and> get_scores d = Inr sc \<and> get_labels d = Inr l
           \<and> triples (Some d) = zip (map (map round_half_even) b) (zip sc l)"
  using assms by (auto simp: guard_def bound_of_def triples_def split: sum.splits)

text \<open>
  Claim C7. When \<^verbatim>\<open>overlay_boxes\<close> returns, every prediction that passed the guard
  was post-processed as follows. Its boxes were rounded to whole numbers
  (\<open>round_half_even\<close> yields an integer, at most one half away); the values
  returned are the rounded boxes, the scores and the labels of the last such
  prediction. For every prediction one line was printed, \<open>done_line\<close>, which
  lists for each class among the labels the number of detections of the class
  and its name. With \<^verbatim>\<open>save_txt\<close> set, one line was appended to the label file for
  each detection, in their order: \<open>detection_line\<close>, five numbers, the class
  label, then the centre and the width and height computed from the corners
  of the rounded box, which has four coordinates. Without \<^verbatim>\<open>save_txt\<close> nothing
  was appended.
\<close>

theorem overlay_boxes_postprocess:
  assumes "overlay_boxes ext dets p t a s = (Inr r, s')"
  shows "(\<exists>d b sc l. last (filter guard dets) = Some d \<and> get_boxes d = Inr b
            \<and> get_scores d = Inr sc \<and> get_labels d = Inr l
            \<and> r = (map (map round_half_even) b, sc, l))
       \<and> (\<forall>x. round_half_even x \<in> \<int> \<and> \<bar>round_half_even x - x\<bar> \<le> 1 / 2)
       \<and> (\<forall>d. Some d \<in> set dets \<and> guard (Some d) \<longrightarrow>
             (\<exists>b sc l. get_boxes d = Inr b \<and> get_scores d = Inr sc \<and> get_labels d = Inr l
                \<and> triples (Some d) = zip (map (map round_half_even) b) (zip sc l)))
       \<and> printed (log s') = printed (log s) @ done_lines ext a t 0 dets
       \<and> (save_txt a \<longrightarrow>
             appended (log s')
               = appended (log s)
                 @ map (\<lambda>tr. (txt_file a p, detection_line ext tr)) (all_triples dets)
             \<and> list_all (\<lambda>tr. length (fst tr) = 4) (all_triples dets))
       \<and> (\<not> save_txt a \<longrightarrow> appended (log s') = appended (log s))"
proof -
  from overlay_boxes_Inr[OF assms] obtain s2 where
    lp: "detections_loop ext a p t 0 (if save_img a then decoded s (Path p) else None) None dets
       (s\<lparr>log := log s @ EvCall ''overlay_boxes'' p
                       # (if save_img a then [EvImread (Path p)] else [])\<rparr>)
     = (Inr (Some r), s2)"
    and s': "s' = s2\<lparr>log := log s2 @ [EvReturn ''overlay_boxes'' p]\<rparr>"
    by blast
  have 1: "\<exists>d b sc l. last (filter guard dets) = Some d \<and> get_boxes d = Inr b
            \<and> get_scores d = Inr sc \<and> get_labels d = Inr l
            \<and> r = (map (map round_half_even) b, sc, l)"
    using bound_of_Some[OF overlay_boxes_bound(2)[OF assms]] by blast
  have 2: "\<forall>x. round_half_even x \<in> \<int> \<and> \<bar>round_half_even x - x\<bar> \<le> 1 / 2"
    using round_half_even_whole round_half_even_near by blast
  have 3: "\<forall>d. Some d \<in> set dets \<and> guard (Some d) \<longrightarrow>
             (\<exists>b sc l. get_boxes d = Inr b \<and> get_scores d = Inr sc \<and> get_labels d = Inr l
                \<and> triples (Some d) = zip (map (map round_half_even) b) (zip sc l))"
    using detections_loop_preds[OF lp] triples_bound_of by (auto simp: list_all_iff)
  have 4: "printed (log s') = printed (log s) @ done_lines ext a t 0 dets"
    using detections_loop_log(2)[OF lp] by (simp add: s')
  have 5: "appended (log s')
           = appended (log s)
             @ (if save_txt a
                then map (\<lambda>tr. (txt_file a p, detection_line ext tr)) (all_triples dets)
                else [])"
    using detections_loop_log(1)[OF lp] by (simp add: s')
  have 6: "save_txt a \<Longrightarrow> list_all (\<lambda>tr. length (fst tr) = 4) (all_triples dets)"
    by (rule detections_loop_boxes[OF lp])
  from 1 2 3 4 5 6 show ?thesis by simp
qed

theorem overlay_boxes_postprocess_witness:
  "fst (overlay_boxes (demo_ext ''images'' []) [Some demo_prediction] ''.github/a.jpg'' 0
          (demo_main_args [''--save_txt''] ''images'') demo_world)
     = Inr ([[0, 2, 2, 4]], [9 / 10], [1])
   \<and> printed (log (snd (overlay_boxes (demo_ext ''images'' []) [Some demo_prediction]
          ''.github/a.jpg'' 0 (demo_main_args [''--save_txt''] ''images'') demo_world)))
     = [''1 cars, Done. (?s)'']
   \<and> appended (log (snd (overlay_boxes (demo_ext ''images'' []) [Some demo_prediction]
          ''.github/a.jpg'' 0 (demo_main_args [''--save_txt''] ''images'') demo_world)))
     = [([''data-bin'', ''output'', ''a.txt''], ''1 1 3 2 2 '' @ [newline])]"
proof -
  let ?run = "overlay_boxes (demo_ext ''images'' []) [Some demo_prediction] ''.github/a.jpg'' 0
          (demo_main_args [''--save_txt''] ''images'') demo_world"
  have f: "fst ?run = Inr ([[0, 2, 2, 4]], [9 / 10], [1])" by code_simp
  then have h: "?run = (Inr ([[0, 2, 2, 4]], [9 / 10], [1]), snd ?run)"
    by (simp add: prod_eq_iff)
  have st: "save_txt (demo_main_args [''--save_txt''] ''images'')" by code_simp
  have pr: "printed (log demo_world)
              @ done_lines (demo_ext ''images'' []) (demo_main_args [''--save_txt''] ''images'') 0 0
                  [Some demo_prediction]
            = [''1 cars, Done. (?s)'']" by code_simp
  have ap: "appended (log demo_world)
              @ map (\<lambda>tr. (txt_file (demo_main_args [''--save_txt''] ''images'') ''.github/a.jpg'',
                           detection_line (demo_ext ''images'' []) tr))
                  (all_triples [Some demo_prediction])
            = [([''data-bin'', ''output'', ''a.txt''], ''1 1 3 2 2 '' @ [newline])]" by code_simp
  from overlay_boxes_postprocess[OF h] st f pr ap show ?thesis by simp
qed

text \<open>
  Claim C2, as amended. When \<^verbatim>\<open>overlay_boxes\<close> returns:
  with \<^verbatim>\<open>save_img\<close> set, the data set in the mode \<open>''images''\<close> and
  \<^verbatim>\<open>cv2.imwrite\<close> able to write, the file \<open>save_path\<close> (the output directory and
  the name of the image) holds the picture read from the image with the boxes
  of all detections drawn into it; in any other mode, or when the write fails,
  no picture is written, whatever the flag. With \<^verbatim>\<open>save_txt\<close> set and at least
  one detection, the lines of the detections are appended to what the file
  \<open>txt_file\<close> (the output directory, the stem of the image and \<^verbatim>\<open>.txt\<close>) held;
  with no detection the label file is neither created nor changed.
\<close>

theorem overlay_boxes_files:
  assumes "overlay_boxes ext dets p t a s = (Inr r, s')"
  shows "(save_img a \<and> mode a = ''images'' \<and> save_path a p \<notin> locked s \<longrightarrow>
            (\<exists>i0. decoded s (Path p) = Some i0
               \<and> files s' (save_path a p) = Some [Pic (codec ext (save_path a p)
                                              (drawn ext a i0 (all_triples dets)))]))
       \<and> (\<not> (save_img a \<and> mode a = ''images'' \<and> save_path a p \<notin> locked s) \<longrightarrow>
            (\<forall>q. q \<noteq> txt_file a p \<longrightarrow> files s' q = files s q))
       \<and> (\<not> (save_img a \<and> mode a = ''images'' \<and> save_path a p \<notin> locked s)
            \<or> txt_file a p \<noteq> save_path a p \<longrightarrow>
            files s' (txt_file a p)
              = (if save_txt a \<and> all_triples dets \<noteq> []
                 then Some (content s (txt_file a p) @ lines_of ext (all_triples dets))
                 else files s (txt_file a p)))"
proof -
  let ?s1 = "s\<lparr>log := log s @ EvCall ''overlay_boxes'' p
                       # (if save_img a then [EvImread (Path p)] else [])\<rparr>"
  from overlay_boxes_Inr[OF assms] obtain s2 where
    lp: "detections_loop ext a p t 0 (if save_img a then decoded s (Path p) else None) None dets
           ?s1 = (Inr (Some r), s2)"
    and s': "s' = s2\<lparr>log := log s2 @ [EvReturn ''overlay_boxes'' p]\<rparr>"
    by blast
  have ne: "dets \<noteq> []" using overlay_boxes_bound(1)[OF assms] by auto
  have 1: "\<exists>i0. decoded s (Path p) = Some i0
               \<and> files s' (save_path a p) = Some [Pic (codec ext (save_path a p)
                                              (drawn ext a i0 (all_triples dets)))]"
    if "save_img a" "mode a = ''images''" "save_path a p \<notin> locked s"
    using detections_loop_image[OF lp that(1,2) ne] that by (simp add: s')
  have 2: "files s' q
         = (if q = txt_file a p \<and> save_txt a \<and> all_triples dets \<noteq> []
            then Some (content s q @ lines_of ext (all_triples dets)) else files s q)"
    if "\<not> (save_img a \<and> mode a = ''images'' \<and> save_path a p \<notin> locked s)
         \<or> q \<noteq> save_path a p" for q
    using detections_loop_files[OF lp, of q] that by (simp add: s')
  from 1 show ?thesis using 2 by auto
qed


theorem overlay_boxes_files_witness:
  "fst (overlay_boxes (demo_ext ''images'' []) [Some demo_prediction] ''.github/a.jpg'' 0
          (demo_main_args [''--save_txt'', ''--save_img''] ''images'') demo_world)
     = Inr ([[0, 2, 2, 4]], [9 / 10], [1])
   \<and> files (snd (overlay_boxes (demo_ext ''images'' []) [Some demo_prediction]
          ''.github/a.jpg'' 0 (demo_main_args [''--save_txt'', ''--save_img''] ''images'')
          demo_world)) [''data-bin'', ''output'', ''a.jpg'']
     = Some [Pic [[[3, 3, 2], [2, 2, 3]]]]
   \<and> files (snd (overlay_boxes (demo_ext ''images'' []) [Some demo_prediction]
          ''.github/a.jpg'' 0 (demo_main_args [''--save_txt'', ''--save_img''] ''images'')
          demo_world)) [''data-bin'', ''output'', ''a.txt'']
     = Some [Line (''1 1 3 2 2 '' @ [newline])]"
proof -
  let ?a = "demo_main_args [''--save_txt'', ''--save_img''] ''images''"
  let ?ext = "demo_ext ''images'' []"
  let ?run = "overlay_boxes ?ext [Some demo_prediction] ''.github/a.jpg'' 0 ?a demo_world"
  have f: "fst ?run = Inr ([[0, 2, 2, 4]], [9 / 10], [1])" by code_simp
  then have h: "?run = (Inr ([[0, 2, 2, 4]], [9 / 10], [1]), snd ?run)"
    by (simp add: prod_eq_iff)
  have c: "save_img ?a \<and> mode ?a = ''images'' \<and> save_path ?a ''.github/a.jpg'' \<notin> locked demo_world
           \<and> save_txt ?a \<and> txt_file ?a ''.github/a.jpg'' \<noteq> save_path ?a ''.github/a.jpg''
           \<and> all_triples [Some demo_prediction] \<noteq> []"
    by code_simp
  have p: "save_path ?a ''.github/a.jpg'' = [''data-bin'', ''output'', ''a.jpg'']
           \<and> txt_file ?a ''.github/a.jpg'' = [''data-bin'', ''output'', ''a.txt'']"
    by code_simp
  have d: "decoded demo_world (Path ''.github/a.jpg'') = Some demo_image
           \<and> codec ?ext (save_path ?a ''.github/a.jpg'')
               (drawn ?ext ?a demo_image (all_triples [Some demo_prediction]))
               = [[[3, 3, 2], [2, 2, 3]]]"
    by code_simp
  have l: "content demo_world (txt_file ?a ''.github/a.jpg'')
             @ lines_of ?ext (all_triples [Some demo_prediction])
           = [Line (''1 1 3 2 2 '' @ [newline])]"
    by code_simp
  from overlay_boxes_files[OF h] c
  have "(\<exists>i0. decoded demo_world (Path ''.github/a.jpg'') = Some i0
               \<and> files (snd ?run) (save_path ?a ''.github/a.jpg'')
                   = Some [Pic (codec ?ext (save_path ?a ''.github/a.jpg'')
                                  (drawn ?ext ?a i0 (all_triples [Some demo_prediction])))])"
    and "files (snd ?run) (txt_file ?a ''.github/a.jpg'')
           = Some (content demo_world (txt_file ?a ''.github/a.jpg'')
                   @ lines_of ?ext (all_triples [Some demo_prediction]))"
    by auto
  with f p d l show ?thesis by auto
qed

text \<open>The claim as it was stated fails in four ways: a data set in the mode
  \<open>''video''\<close> gets no picture although \<^verbatim>\<open>save_img\<close> is set; an image without
  detections gets no label file although \<^verbatim>\<open>save_txt\<close> is set; a picture that
  cannot be written is dropped and the run goes on; and a label file that
  existed holds more lines than the image has detections.\<close>

theorem overlay_boxes_files_counterexample:
  "fst (script (demo_ext ''video'' [Some demo_prediction]) [''--save_img''] demo_world) = Inr ()
   \<and> files (snd (script (demo_ext ''video'' [Some demo_prediction]) [''--save_img'']
                   demo_world)) [''data-bin'', ''output'', ''a.jpg''] = None
   \<and> fst (script (demo_ext ''images'' [Some empty_prediction]) [''--save_txt''] demo_world)
       = Inr ()
   \<and> files (snd (script (demo_ext ''images'' [Some empty_prediction]) [''--save_txt'']
                   demo_world)) [''data-bin'', ''output'', ''a.txt''] = None
   \<and> fst (script (demo_ext ''images'' [Some demo_prediction]) [''--save_img'']
            (demo_world\<lparr>locked := {[''data-bin'', ''output'', ''a.jpg'']}\<rparr>)) = Inr ()
   \<and> files (snd (script (demo_ext ''images'' [Some demo_prediction]) [''--save_img'']
                   (demo_world\<lparr>locked := {[''data-bin'', ''output'', ''a.jpg'']}\<rparr>)))
        [''data-bin'', ''output'', ''a.jpg''] = None
   \<and> files (snd (script (demo_ext ''images'' [Some demo_prediction]) [''--save_txt'']
                   (demo_world\<lparr>files := demo_files([''data-bin'', ''output'', ''a.txt'']
                                                     \<mapsto> [Line ''0 9 9 2 2 ''])\<rparr>)))
        [''data-bin'', ''output'', ''a.txt'']
       = Some [Line ''0 9 9 2 2 '', Line (''1 1 3 2 2 '' @ [newline])]"
  by code_simp

subsection \<open>Properties of every run\<close>

lemma holdsI:
  assumes "\<And>s x s'. m s = (Inr x, s') \<Longrightarrow> R s None s'"
    and "\<And>s e s'. m s = (Inl e, s') \<Longrightarrow> R s (Some e) s'"
  shows "holds R m"
  using assms by (auto simp: holds_def split: prod.splits sum.splits)

lemma holdsD:
  assumes "holds R m"
  shows "m s = (Inr x, s') \<Longrightarrow> R s None s'" and "m s = (Inl e, s') \<Longrightarrow> R s (Some e) s'"
  using assms[unfolded holds_def, rule_format, of s] by auto

lemma holds_retE:
  assumes "composable R"
  shows "holds R (retE x)"
  using assms by (simp add: holds_def retE_def composable_def)

lemma holds_bindE:
  assumes "composable R" "holds R m" "\<And>x. holds R (f x)"
  shows "holds R (bindE m f)"
proof (rule holdsI)
  fix s y s'
  assume "bindE m f s = (Inr y, s')"
  then obtain x s1 where "m s = (Inr x, s1)" "f x s1 = (Inr y, s')"
    by (auto simp: bindE_Inr_iff)
  with holdsD(1)[OF assms(2)] holdsD(1)[OF assms(3)] assms(1)
  show "R s None s'" unfolding composable_def by blast
next
  fix s e s'
  assume b: "bindE m f s = (Inl e, s')"
  show "R s (Some e) s'"
  proof (cases "m s")
    case (Pair r s1)
    show ?thesis
    proof (cases r)
      case (Inl e1)
      with Pair b have "e1 = e" "s1 = s'" by (simp_all add: bindE_def)
      with Pair Inl holdsD(2)[OF assms(2)] show ?thesis by blast
    next
      case (Inr x)
      with Pair b have "f x s1 = (Inl e, s')" by (simp add: bindE_def)
      with Pair Inr holdsD(1)[OF assms(2)] holdsD(2)[OF assms(3)] assms(1)
      show ?thesis unfolding composable_def by blast
    qed
  qed
qed

lemma holds_raiseE:
  assumes "holds R (raiseE e :: unit prog)"
  shows "holds R (raiseE e :: 'a prog)"
  using assms by (simp add: holds_def raiseE_def)

lemma holds_state: "(\<And>s0. holds R (m s0)) \<Longrightarrow> holds R (\<lambda>s. m s s)"
  by (simp add: holds_def)

lemma holds_if: "holds R m1 \<Longrightarrow> holds R m2 \<Longrightarrow> holds R (if c then m1 else m2)"
  by simp

lemma holds_case_prod: "(\<And>x y. holds R (f x y)) \<Longrightarrow> holds R (case v of (x, y) \<Rightarrow> f x y)"
  by (cases v) simp

lemma holds_case_option:
  "holds R m1 \<Longrightarrow> (\<And>x. holds R (f x)) \<Longrightarrow> holds R (case v of None \<Rightarrow> m1 | Some x \<Rightarrow> f x)"
  by (cases v) simp_all


lemma frame_quietD:
  assumes "frame_quiet ext R"
  shows "composable R" "holds R (raiseE e :: 'a prog)" "holds R (py_print msg)"
    "holds R (open_append q txt)" "holds R (cv2_imwrite ext q img)" "holds R (open_read q)"
    "holds R (time_now ext)"
  using assms holds_raiseE[of R e] by (simp_all add: frame_quiet_def)

lemma frame_loopD:
  assumes "frame_loop ext R"
  shows "frame_quiet ext R" "holds R (emit (EvCall f p))" "holds R (emit (EvReturn f p))"
    "holds R (emit EvForward)" "holds R (emit (EvYield p))" "holds R (cv2_imread q)"
    "holds R model_eval"
  using assms by (simp_all add: frame_loop_def)

lemma frame_mainD:
  assumes "frame_main ext R"
  shows "frame_loop ext R" "holds R (emit (EvYolov5 cfg ckpt))"
    "holds R (emit (EvLoadImages src sz))" "holds R (emit (EvParseArgs argv))"
    "holds R (emit (EvMkdir q))" "holds R (model_to dev)" "holds R model_half"
    "holds R (model_init tr)"
  using assms by (simp_all add: frame_main_def)

lemma holds_lift:
  assumes "frame_quiet ext R"
  shows "holds R (lift v)"
  using frame_quietD(2)[OF assms] holds_retE[OF frame_quietD(1)[OF assms]]
  by (cases v) (simp_all add: lift_def)

lemma holds_print_results:
  assumes "frame_quiet ext R"
  shows "holds R (print_results ext a labels s0 cs)"
proof (induction cs arbitrary: s0)
  case Nil
  show ?case by (simp add: holds_retE[OF frame_quietD(1)[OF assms]])
next
  case (Cons c cs)
  show ?case
    by (simp, intro holds_bindE[OF frame_quietD(1)[OF assms]] holds_lift[OF assms] Cons)
qed

lemma holds_draw_box:
  assumes "frame_quiet ext R"
  shows "holds R (draw_box ext xyxy img label col)"
  unfolding draw_box_def
  by (intro holds_case_option holds_bindE[OF frame_quietD(1)[OF assms]] holds_lift[OF assms]
        holds_retE[OF frame_quietD(1)[OF assms]] frame_quietD(2)[OF assms])

lemma holds_write_results:
  assumes "frame_quiet ext R"
  shows "holds R (write_results ext a p img trs)"
proof (induction trs arbitrary: img)
  case Nil
  show ?case by (simp add: holds_retE[OF frame_quietD(1)[OF assms]])
next
  case (Cons tr rest)
  obtain xyxy conf c where tr: "tr = (xyxy, conf, c)" by (cases tr)
  show ?case unfolding tr write_results.simps
    by (intro holds_bindE[OF frame_quietD(1)[OF assms]] holds_if holds_lift[OF assms]
          holds_retE[OF frame_quietD(1)[OF assms]] frame_quietD(4)[OF assms]
          holds_draw_box[OF assms] Cons)
qed

lemma holds_guarded_branch:
  assumes "frame_quiet ext R"
  shows "holds R (guarded_branch ext a p s0 img d)"
  unfolding guarded_branch_def
  by (intro holds_bindE[OF frame_quietD(1)[OF assms]] holds_lift[OF assms]
        holds_retE[OF frame_quietD(1)[OF assms]] holds_print_results[OF assms]
        holds_write_results[OF assms])

lemma holds_detections_loop:
  assumes "frame_quiet ext R"
  shows "holds R (detections_loop ext a p t i img bnd dets)"
proof (induction dets arbitrary: i img bnd)
  case Nil
  show ?case by (simp add: holds_retE[OF frame_quietD(1)[OF assms]])
next
  case (Cons pred rest)
  show ?case unfolding detections_loop.simps
    by (intro holds_bindE[OF frame_quietD(1)[OF assms]] holds_if holds_case_prod
          holds_retE[OF frame_quietD(1)[OF assms]] holds_guarded_branch[OF assms]
          frame_quietD(3,5)[OF assms] Cons)
qed

lemma holds_load_names:
  assumes "frame_quiet ext R"
  shows "holds R (load_names q)"
  unfolding load_names_def
  by (intro holds_bindE[OF frame_quietD(1)[OF assms]] holds_retE[OF frame_quietD(1)[OF assms]]
        frame_quietD(6)[OF assms])

lemma holds_zeros:
  assumes "frame_quiet ext R"
  shows "holds R (zeros imgsz dev)"
  unfolding zeros_def
  by (intro holds_if holds_retE[OF frame_quietD(1)[OF assms]] frame_quietD(2)[OF assms])

lemma holds_read_image:
  assumes "frame_loop ext R"
  shows "holds R (read_image p h)"
proof -
  note q = frame_loopD(1)[OF assms]
  show ?thesis unfolding read_image_def
    by (intro holds_bindE[OF frame_quietD(1)[OF q]] holds_case_option
          holds_retE[OF frame_quietD(1)[OF q]] frame_quietD(2)[OF q] frame_loopD(6)[OF assms])
qed

lemma holds_model_call:
  assumes "frame_loop ext R"
  shows "holds R (model_call ext w imgs)"
proof -
  note q = frame_loopD(1)[OF assms]
  have h: "holds R (bindE (emit EvForward) (\<lambda>_. lift v))" for v :: "error + prediction option list"
    by (intro holds_bindE[OF frame_quietD(1)[OF q]] holds_lift[OF q] frame_loopD(4)[OF assms])
  show ?thesis
    unfolding holds_def
  proof
    fix s
    show "case model_call ext w imgs s of
            (Inr x, s') \<Rightarrow> R s None s' | (Inl e, s') \<Rightarrow> R s (Some e) s'"
      using h[of "forward ext w (net_training s) (net_fp16 s) (net_device s) imgs",
              unfolded holds_def, rule_format, of s]
      by (simp add: model_call_def)
  qed
qed

lemma holds_inference:
  assumes "frame_loop ext R"
  shows "holds R (inference ext w p dev h)"
proof -
  note q = frame_loopD(1)[OF assms]
  show ?thesis unfolding inference_def
    by (intro holds_bindE[OF frame_quietD(1)[OF q]] holds_retE[OF frame_quietD(1)[OF q]]
          frame_loopD(2,3,7)[OF assms] frame_quietD(7)[OF q] holds_read_image[OF assms]
          holds_model_call[OF assms])
qed

lemma holds_overlay_boxes:
  assumes "frame_loop ext R"
  shows "holds R (overlay_boxes ext dets p t a)"
proof -
  note q = frame_loopD(1)[OF assms]
  show ?thesis unfolding overlay_boxes_def
    by (intro holds_bindE[OF frame_quietD(1)[OF q]] holds_retE[OF frame_quietD(1)[OF q]]
          holds_if holds_case_option frame_loopD(2,3,6)[OF assms] frame_quietD(2)[OF q]
          holds_detections_loop[OF q])
qed

lemma holds_run_dataset:
  assumes "frame_loop ext R"
  shows "holds R (run_dataset ext w a dev h items)"
proof (induction items)
  case Nil
  show ?case by (simp add: holds_retE[OF frame_quietD(1)[OF frame_loopD(1)[OF assms]]])
next
  case (Cons item rest)
  note q = frame_loopD(1)[OF assms]
  show ?case unfolding run_dataset.simps
    by (intro holds_bindE[OF frame_quietD(1)[OF q]] holds_case_prod holds_lift[OF q]
          frame_loopD(5)[OF assms] holds_inference[OF assms] holds_overlay_boxes[OF assms] Cons)
qed

lemma holds_hub_yolov5:
  assumes "frame_main ext R"
  shows "holds R (hub_yolov5 ext cfg ckpt)"
proof -
  note l = frame_mainD(1)[OF assms]
  note q = frame_loopD(1)[OF l]
  have h: "holds R (bindE (emit (EvYolov5 cfg ckpt)) (\<lambda>_.
             bindE (lift v) (\<lambda>(w, tr). bindE (model_init tr) (\<lambda>_. retE w))))"
    for v :: "error + 'a \<times> bool"
    by (intro holds_bindE[OF frame_quietD(1)[OF q]] holds_case_prod holds_lift[OF q]
          holds_retE[OF frame_quietD(1)[OF q]] frame_mainD(2,8)[OF assms])
  show ?thesis
    unfolding holds_def
  proof
    fix s
    show "case hub_yolov5 ext cfg ckpt s of
            (Inr x, s') \<Rightarrow> R s None s' | (Inl e, s') \<Rightarrow> R s (Some e) s'"
      using h[of "yolov5 ext cfg ckpt (files s)", unfolded holds_def, rule_format, of s]
      by (simp add: hub_yolov5_def)
  qed
qed

lemma holds_load_images:
  assumes "frame_main ext R"
  shows "holds R (load_images ext src imgsz)"
proof -
  note l = frame_mainD(1)[OF assms]
  note q = frame_loopD(1)[OF l]
  have h: "holds R (bindE (emit (EvLoadImages src imgsz)) (\<lambda>_. lift v))"
    for v :: "error + dataset"
    by (intro holds_bindE[OF frame_quietD(1)[OF q]] holds_lift[OF q] frame_mainD(3)[OF assms])
  show ?thesis
    unfolding holds_def
  proof
    fix s
    show "case load_images ext src imgsz s of
            (Inr x, s') \<Rightarrow> R s None s' | (Inl e, s') \<Rightarrow> R s (Some e) s'"
      using h[of "LoadImages ext src imgsz (files s)", unfolded holds_def, rule_format, of s]
      by (simp add: load_images_def)
  qed
qed

lemma holds_mkdir:
  assumes "frame_main ext R"
  shows "holds R (mkdir q)"
proof -
  note l = frame_mainD(1)[OF assms]
  note fq = frame_loopD(1)[OF l]
  have h: "holds R (if c then (raiseE OSError :: unit prog) else emit (EvMkdir q))" for c
    by (intro holds_if frame_quietD(2)[OF fq] frame_mainD(5)[OF assms])
  show ?thesis
    unfolding holds_def
  proof
    fix s
    show "case mkdir q s of (Inr x, s') \<Rightarrow> R s None s' | (Inl e, s') \<Rightarrow> R s (Some e) s'"
      using h[of "q \<in> locked s \<or> files s q \<noteq> None", unfolded holds_def, rule_format, of s]
      by (auto simp: mkdir_def split: if_splits)
  qed
qed

lemma holds_main:
  assumes "frame_main ext R"
  shows "holds R (main ext a)"
proof -
  note l = frame_mainD(1)[OF assms]
  note q = frame_loopD(1)[OF l]
  show ?thesis unfolding main_def
    by (intro holds_bindE[OF frame_quietD(1)[OF q]] holds_retE[OF frame_quietD(1)[OF q]]
          holds_if holds_lift[OF q] frame_quietD(3,7)[OF q] frame_loopD(7)[OF l]
          frame_mainD(6,7)[OF assms] holds_hub_yolov5[OF assms] holds_load_images[OF assms]
          holds_load_names[OF q] holds_zeros[OF q] holds_model_call[OF l]
          holds_run_dataset[OF l])
qed

lemma holds_script:
  assumes "frame_main ext R"
  shows "holds R (script ext argv)"
proof -
  note l = frame_mainD(1)[OF assms]
  note q = frame_loopD(1)[OF l]
  show ?thesis unfolding script_def
    by (intro holds_bindE[OF frame_quietD(1)[OF q]] holds_retE[OF frame_quietD(1)[OF q]]
          holds_if holds_lift[OF q] frame_mainD(4)[OF assms] holds_mkdir[OF assms]
          holds_main[OF assms])
qed

subsection \<open>The four properties on the operations that touch the state\<close>



lemma grows_refl: "grows q s s"
  by (simp add: grows_def split: option.splits)

lemma grows_trans: "grows q s t \<Longrightarrow> grows q t u \<Longrightarrow> grows q s u"
  by (auto simp: grows_def split: option.splits)

lemma grows_same_files: "files s' = files s \<Longrightarrow> grows q s s'"
  by (simp add: grows_def split: option.splits)

lemma composable_growing: "composable (growing q)"
  unfolding composable_def growing_def using grows_refl grows_trans by blast

lemma frame_main_growing:
  assumes "\<not> has_encoder ext q"
  shows "frame_main ext (growing q)"
proof -
  have w: "holds (growing q) (cv2_imwrite ext p img)" for p img
    using assms
    by (cases img) (auto simp: holds_def growing_def grows_def cv2_imwrite_def raiseE_def
                          split: option.splits)
  show ?thesis
    unfolding frame_main_def frame_loop_def frame_quiet_def
    by (intro conjI allI composable_growing w)
       (simp_all add: holds_def growing_def grows_def raiseE_def py_print_def
          emit_def open_append_def open_read_def time_now_def cv2_imread_def
          model_eval_def model_to_def model_half_def model_init_def
          split: option.splits)
qed

lemma composable_same_net: "composable same_net"
  by (auto simp: composable_def same_net_def)

lemma frame_loop_same_net: "frame_loop ext same_net"
  unfolding frame_loop_def frame_quiet_def
  by (intro conjI allI composable_same_net)
     (simp_all add: holds_def same_net_def raiseE_def py_print_def
        emit_def open_append_def cv2_imwrite_def open_read_def time_now_def cv2_imread_def
        model_eval_def
        split: option.splits)

lemma composable_silent: "composable silent"
  by (auto simp: composable_def silent_def)

lemma frame_quiet_silent: "frame_quiet ext silent"
  unfolding frame_quiet_def
  by (intro conjI allI composable_silent)
     (simp_all add: holds_def silent_def raiseE_def py_print_def
        emit_def open_append_def cv2_imwrite_def open_read_def time_now_def
        split: option.splits)




subsection \<open>Label files\<close>

lemma detections_loop_encoder:
  assumes "detections_loop ext a p t i img bnd dets s = (Inr bnd', s')"
    and "dets \<noteq> []" "save_img a" "mode a = ''images''"
  shows "has_encoder ext (save_path a p)"
proof -
  from assms(2) obtain pred rest where "dets = pred # rest" by (cases dets) auto
  with assms(1) detections_loop_step(3)[of ext a p t i img bnd pred rest s bnd' s'] assms(3,4)
  show ?thesis by simp
qed

lemma overlay_boxes_appends:
  assumes "overlay_boxes ext dets p t a s = (Inr r, s')"
    and "\<not> has_encoder ext (txt_file a p)" "save_txt a"
  shows "content s' (txt_file a p) = content s (txt_file a p) @ lines_of ext (all_triples dets)"
proof -
  let ?s1 = "s\<lparr>log := log s @ EvCall ''overlay_boxes'' p
                       # (if save_img a then [EvImread (Path p)] else [])\<rparr>"
  from overlay_boxes_Inr[OF assms(1)] obtain s2 where
    lp: "detections_loop ext a p t 0 (if save_img a then decoded s (Path p) else None) None dets
           ?s1 = (Inr (Some r), s2)"
    and s': "s' = s2\<lparr>log := log s2 @ [EvReturn ''overlay_boxes'' p]\<rparr>"
    by blast
  have ne: "dets \<noteq> []" using overlay_boxes_bound(1)[OF assms(1)] by auto
  have "\<not> (save_img a \<and> mode a = ''images'' \<and> save_path a p \<notin> locked ?s1)
         \<or> txt_file a p \<noteq> save_path a p"
    using detections_loop_encoder[OF lp ne] assms(2) by auto
  from detections_loop_files[OF lp this] assms(3) show ?thesis
    by (simp add: s' content_def)
qed

text \<open>
  Claim C9. A label file is only ever appended to. A file for whose name
  \<^verbatim>\<open>cv2\<close> has no encoder (a \<^verbatim>\<open>.txt\<close> file is one) still starts with what it
  held, after every run of the script and after every call of
  \<^verbatim>\<open>overlay_boxes\<close>, whether they return or raise. When \<^verbatim>\<open>overlay_boxes\<close> returns
  with \<^verbatim>\<open>save_txt\<close> set, the label file of the image holds what it held followed
  by the lines of the detections; a second call with the same detections adds
  the same lines once more.
\<close>

theorem label_files_only_grow:
  assumes "\<not> has_encoder ext q"
  shows "grows q s (snd (script ext argv s))
       \<and> grows q s (snd (overlay_boxes ext dets p t a s))
       \<and> (overlay_boxes ext dets p t a s = (Inr r, s1) \<and> q = txt_file a p \<and> save_txt a \<longrightarrow>
            content s1 q = content s q @ lines_of ext (all_triples dets)
            \<and> (overlay_boxes ext dets p t' a s1 = (Inr r', s2) \<longrightarrow>
                 content s2 q
                   = content s q @ lines_of ext (all_triples dets)
                       @ lines_of ext (all_triples dets)))"
proof (intro conjI impI)
  note fm = frame_main_growing[OF assms]
  show "grows q s (snd (script ext argv s))"
    using holds_script[OF fm, of argv, unfolded holds_def, rule_format, of s]
    by (cases "script ext argv s"; cases "fst (script ext argv s)")
       (auto simp: growing_def)
  show "grows q s (snd (overlay_boxes ext dets p t a s))"
    using holds_overlay_boxes[OF frame_mainD(1)[OF fm], of dets p t a,
            unfolded holds_def, rule_format, of s]
    by (cases "overlay_boxes ext dets p t a s"; cases "fst (overlay_boxes ext dets p t a s)")
       (auto simp: growing_def)
next
  assume h: "overlay_boxes ext dets p t a s = (Inr r, s1) \<and> q = txt_file a p \<and> save_txt a"
  with overlay_boxes_appends[of ext dets p t a s r s1] assms
  show 1: "content s1 q = content s q @ lines_of ext (all_triples dets)" by simp
  assume "overlay_boxes ext dets p t' a s1 = (Inr r', s2)"
  with overlay_boxes_appends[of ext dets p t' a s1 r' s2] assms h 1
  show "content s2 q
          = content s q @ lines_of ext (all_triples dets) @ lines_of ext (all_triples dets)"
    by simp
qed

theorem label_files_only_grow_witness:
  "\<not> has_encoder (demo_ext ''images'' [Some demo_prediction]) [''data-bin'', ''output'', ''a.txt'']
   \<and> grows [''data-bin'', ''output'', ''a.txt''] demo_world
         (snd (script (demo_ext ''images'' [Some demo_prediction]) [''--save_txt''] demo_world))
   \<and> content (snd (overlay_boxes (demo_ext ''images'' []) [Some demo_prediction]
                      ''.github/a.jpg'' 0 (demo_main_args [''--save_txt''] ''images'') demo_world))
         [''data-bin'', ''output'', ''a.txt'']
       = [Line (''1 1 3 2 2 '' @ [newline])]
   \<and> content (snd (overlay_boxes (demo_ext ''images'' []) [Some demo_prediction]
                      ''.github/a.jpg'' 1 (demo_main_args [''--save_txt''] ''images'')
                      (snd (overlay_boxes (demo_ext ''images'' []) [Some demo_prediction]
                             ''.github/a.jpg'' 0 (demo_main_args [''--save_txt''] ''images'')
                             demo_world))))
         [''data-bin'', ''output'', ''a.txt'']
       = [Line (''1 1 3 2 2 '' @ [newline]), Line (''1 1 3 2 2 '' @ [newline])]
   \<and> files (snd (script (demo_ext ''images'' [Some demo_prediction]) [''--save_txt'']
                   (snd (script (demo_ext ''images'' [Some demo_prediction]) [''--save_txt'']
                          demo_world))))
         [''data-bin'', ''output'', ''a.txt'']
       = Some [Line (''1 1 3 2 2 '' @ [newline]), Line (''1 1 3 2 2 '' @ [newline])]"
proof -
  let ?E = "demo_ext ''images'' [Some demo_prediction]"
  let ?F = "demo_ext ''images'' []"
  let ?a = "demo_main_args [''--save_txt''] ''images''"
  let ?q = "[''data-bin'', ''output'', ''a.txt'']"
  let ?run1 = "overlay_boxes ?F [Some demo_prediction] ''.github/a.jpg'' 0 ?a demo_world"
  let ?run2 = "overlay_boxes ?F [Some demo_prediction] ''.github/a.jpg'' 1 ?a (snd ?run1)"
  have twice: "files (snd (script ?E [''--save_txt''] (snd (script ?E [''--save_txt''] demo_world))))
                 ?q = Some [Line (''1 1 3 2 2 '' @ [newline]), Line (''1 1 3 2 2 '' @ [newline])]"
    by code_simp
  have e: "\<not> has_encoder ?E ?q" "\<not> has_encoder ?F ?q" by code_simp+
  have f1: "fst ?run1 = Inr ([[0, 2, 2, 4]], [9 / 10], [1])" by code_simp
  have f2: "fst ?run2 = Inr ([[0, 2, 2, 4]], [9 / 10], [1])" by code_simp
  have h1: "?run1 = (Inr ([[0, 2, 2, 4]], [9 / 10], [1]), snd ?run1)"
    using f1 by (simp add: prod_eq_iff)
  have h2: "?run2 = (Inr ([[0, 2, 2, 4]], [9 / 10], [1]), snd ?run2)"
    using f2 by (simp add: prod_eq_iff)
  have c: "?q = txt_file ?a ''.github/a.jpg'' \<and> save_txt ?a" by code_simp
  have c0: "content demo_world ?q = []" by code_simp
  have l1: "lines_of ?F (all_triples [Some demo_prediction])
            = [Line (''1 1 3 2 2 '' @ [newline])]" by code_simp
  note g = label_files_only_grow[OF e(1), of demo_world "[''--save_txt'']", THEN conjunct1]
  note t = label_files_only_grow[OF e(2), of demo_world "[]" "[Some demo_prediction]"
             "''.github/a.jpg''" 0 ?a "([[0, 2, 2, 4]], [9 / 10], [1])" "snd ?run1" 1
             "([[0, 2, 2, 4]], [9 / 10], [1])" "snd ?run2",
             THEN conjunct2, THEN conjunct2, THEN mp]
  have pre: "?run1 = (Inr ([[0, 2, 2, 4]], [9 / 10], [1]), snd ?run1)
             \<and> ?q = txt_file ?a ''.github/a.jpg'' \<and> save_txt ?a"
    by (intro conjI h1 conjunct1[OF c] conjunct2[OF c])
  note both = t[OF pre]
  have r1: "content (snd ?run1) ?q = [Line (''1 1 3 2 2 '' @ [newline])]"
    using both[THEN conjunct1] by (simp only: c0 l1 append_Nil)
  have r2: "content (snd ?run2) ?q
              = [Line (''1 1 3 2 2 '' @ [newline]), Line (''1 1 3 2 2 '' @ [newline])]"
    using both[THEN conjunct2, THEN mp, OF h2] by (simp only: c0 l1 append_Nil append_Cons)
  show ?thesis by (intro conjI e(1) g r1 r2 twice)
qed

text \<open>
  Claim C5. The detections that \<^verbatim>\<open>inference\<close> returns for an image are the same
  in any two states that agree on the contents of the image file and on the
  precision and the device of the network, whatever else differs (the log of
  what was processed before, the clock, the other files, the flag \<^verbatim>\<open>is_half\<close>).
  The loop over the images changes neither the precision nor the device of the
  network, so after any number of images \<^verbatim>\<open>inference\<close> returns for an image
  whose file was not changed what it returns before the loop. Every call of
  \<^verbatim>\<open>inference\<close> reads the image file: nothing is kept from an earlier read. (The
  forward pass is a function of the weights, the flags of the network and the
  input: that the library keeps no state of its own is part of the model.)
\<close>

theorem inference_stateless:
  "(files s (Path p) = files s' (Path p) \<and> net_fp16 s = net_fp16 s'
      \<and> net_device s = net_device s' \<longrightarrow>
      detections_of (inference ext w p dev h s) = detections_of (inference ext w p dev h' s'))
   \<and> (run_dataset ext w a dev h items s = (r, s1) \<longrightarrow>
        net_fp16 s1 = net_fp16 s \<and> net_device s1 = net_device s)
   \<and> (run_dataset ext w a dev h items s = (r, s1) \<and> files s1 (Path p) = files s (Path p) \<longrightarrow>
        detections_of (inference ext w p dev h s1) = detections_of (inference ext w p dev h s))
   \<and> (\<exists>l. log (snd (inference ext w p dev h s))
          = log s @ EvCall ''inference'' p # EvImread (Path p) # l)"
proof -
  have A: "detections_of (inference ext w p dev h s) = detections_of (inference ext w p dev h' s')"
    if "files s (Path p) = files s' (Path p)" "net_fp16 s = net_fp16 s'"
       "net_device s = net_device s'" for s s' h h'
    using that
    by (simp add: detections_of_def inference_def bindE_def emit_def model_eval_def
          read_image_def cv2_imread_def decoded_def retE_def raiseE_def time_now_def
          model_call_def lift_def
          split: option.splits sum.splits prod.splits)
  have B: "net_fp16 s1 = net_fp16 s \<and> net_device s1 = net_device s"
    if "run_dataset ext w a dev h items s = (r, s1)"
    using holds_run_dataset[OF frame_loop_same_net, of ext w a dev h items,
            unfolded holds_def, rule_format, of s] that
    by (cases r) (auto simp: same_net_def)
  have C: "\<exists>l. log (snd (inference ext w p dev h s))
          = log s @ EvCall ''inference'' p # EvImread (Path p) # l"
    by (simp add: inference_def bindE_def emit_def model_eval_def
          read_image_def cv2_imread_def decoded_def retE_def raiseE_def time_now_def
          model_call_def lift_def
          split: option.splits sum.splits prod.splits)
  from A[of s s' h h'] B A[of s1 s h h] C show ?thesis by auto
qed

theorem inference_stateless_witness:
  "files (snd (run_dataset (demo_ext ''images'' [Some demo_prediction]) ()
                 (demo_main_args [''--save_txt'', ''--save_img''] ''images'') Cpu False
                 [Inr ''.github/a.jpg''] demo_world)) (Path ''.github/a.jpg'')
     = files demo_world (Path ''.github/a.jpg'')
   \<and> detections_of (inference (demo_ext ''images'' [Some demo_prediction]) ()
                      ''.github/a.jpg'' Cpu False
                      (snd (run_dataset (demo_ext ''images'' [Some demo_prediction]) ()
                              (demo_main_args [''--save_txt'', ''--save_img''] ''images'') Cpu
                              False [Inr ''.github/a.jpg''] demo_world)))
     = detections_of (inference (demo_ext ''images'' [Some demo_prediction]) ()
                        ''.github/a.jpg'' Cpu False demo_world)
   \<and> detections_of (inference (demo_ext ''images'' [Some demo_prediction]) ()
                      ''.github/a.jpg'' Cpu False demo_world)
     = Inr [Some demo_prediction]"
proof -
  let ?E = "demo_ext ''images'' [Some demo_prediction]"
  let ?a = "demo_main_args [''--save_txt'', ''--save_img''] ''images''"
  let ?run = "run_dataset ?E () ?a Cpu False [Inr ''.github/a.jpg''] demo_world"
  have f: "files (snd ?run) (Path ''.github/a.jpg'') = files demo_world (Path ''.github/a.jpg'')"
    by code_simp
  have d: "detections_of (inference ?E () ''.github/a.jpg'' Cpu False demo_world)
           = Inr [Some demo_prediction]" by code_simp
  have h: "?run = (fst ?run, snd ?run)" by (rule prod.collapse[symmetric])
  note t = inference_stateless[of demo_world "''.github/a.jpg''" demo_world ?E "()" Cpu False
             False ?a "[Inr ''.github/a.jpg'']" "fst ?run" "snd ?run",
             THEN conjunct2, THEN conjunct2, THEN conjunct1, THEN mp]
  have "detections_of (inference ?E () ''.github/a.jpg'' Cpu False (snd ?run))
        = detections_of (inference ?E () ''.github/a.jpg'' Cpu False demo_world)"
    by (rule t) (intro conjI h f)
  then show ?thesis by (intro conjI f d)
qed

subsection \<open>The steps of the pipeline\<close>

lemma emitsI:
  assumes "\<And>s x s'. m s = (Inr x, s') \<Longrightarrow> \<exists>X. steps (log s') = steps (log s) @ X \<and> X \<in> T"
    and "\<And>s e s'. m s = (Inl e, s') \<Longrightarrow>
           \<exists>X. steps (log s') = steps (log s) @ X \<and> (\<exists>Z\<in>T. prefix X Z)"
  shows "emits m T"
  unfolding emits_def
proof
  fix s
  show "\<exists>X. steps (log (snd (m s))) = steps (log s) @ X
              \<and> (case fst (m s) of Inr x \<Rightarrow> X \<in> T | Inl e \<Rightarrow> (\<exists>Z\<in>T. prefix X Z))"
  proof (cases "m s")
    case (Pair r s')
    show ?thesis
    proof (cases r)
      case (Inl e)
      from assms(2)[OF Pair[unfolded Inl]] show ?thesis by (simp add: Pair Inl)
    next
      case (Inr x)
      from assms(1)[OF Pair[unfolded Inr]] show ?thesis by (simp add: Pair Inr)
    qed
  qed
qed

lemma emitsD:
  assumes "emits m T"
  shows "m s = (Inr x, s') \<Longrightarrow> \<exists>X. steps (log s') = steps (log s) @ X \<and> X \<in> T"
    and "m s = (Inl e, s') \<Longrightarrow> \<exists>X. steps (log s') = steps (log s) @ X \<and> (\<exists>Z\<in>T. prefix X Z)"
  using assms[unfolded emits_def, rule_format, of s] by auto

lemma emits_weaken:
  assumes "emits m T" "T \<subseteq> T'"
  shows "emits m T'"
proof (rule emitsI)
  fix s x s' assume "m s = (Inr x, s')"
  from emitsD(1)[OF assms(1) this] assms(2)
  show "\<exists>X. steps (log s') = steps (log s) @ X \<and> X \<in> T'" by blast
next
  fix s e s' assume "m s = (Inl e, s')"
  from emitsD(2)[OF assms(1) this] assms(2)
  show "\<exists>X. steps (log s') = steps (log s) @ X \<and> (\<exists>Z\<in>T'. prefix X Z)" by blast
qed

lemma emits_nonempty:
  assumes "emits m T"
  shows "\<exists>Y. Y \<in> T"
proof -
  from assms[unfolded emits_def, rule_format, of undefined] obtain X where
    "case fst (m undefined) of Inr x \<Rightarrow> X \<in> T | Inl e \<Rightarrow> (\<exists>Z\<in>T. prefix X Z)" by blast
  then show ?thesis by (cases "fst (m undefined)") auto
qed

lemma emits_silent:
  assumes "holds silent m"
  shows "emits m {[]}"
proof (rule emitsI)
  fix s x s' assume "m s = (Inr x, s')"
  from holdsD(1)[OF assms this] show "\<exists>X. steps (log s') = steps (log s) @ X \<and> X \<in> {[]}"
    by (simp add: silent_def)
next
  fix s e s' assume "m s = (Inl e, s')"
  from holdsD(2)[OF assms this]
  show "\<exists>X. steps (log s') = steps (log s) @ X \<and> (\<exists>Z\<in>{[]}. prefix X Z)"
    by (simp add: silent_def)
qed

lemma emits_bindE:
  assumes "emits m T" "\<And>x. emits (f x) U"
  shows "emits (bindE m f) {X @ Y |X Y. X \<in> T \<and> Y \<in> U}"
proof (rule emitsI)
  fix s y s' assume "bindE m f s = (Inr y, s')"
  then obtain x s1 where m: "m s = (Inr x, s1)" and f: "f x s1 = (Inr y, s')"
    by (auto simp: bindE_Inr_iff)
  from emitsD(1)[OF assms(1) m] obtain X where X: "steps (log s1) = steps (log s) @ X" "X \<in> T"
    by blast
  from emitsD(1)[OF assms(2) f] obtain Y where Y: "steps (log s') = steps (log s1) @ Y" "Y \<in> U"
    by blast
  from X Y show "\<exists>Z. steps (log s') = steps (log s) @ Z \<and> Z \<in> {X @ Y |X Y. X \<in> T \<and> Y \<in> U}"
    by auto
next
  fix s e s' assume b: "bindE m f s = (Inl e, s')"
  show "\<exists>Z. steps (log s') = steps (log s) @ Z
          \<and> (\<exists>W\<in>{X @ Y |X Y. X \<in> T \<and> Y \<in> U}. prefix Z W)"
  proof (cases "m s")
    case (Pair r s1)
    show ?thesis
    proof (cases r)
      case (Inl e1)
      with Pair b have m: "m s = (Inl e, s')" by (simp add: bindE_def)
      from emitsD(2)[OF assms(1) m] obtain X Z where
        X: "steps (log s') = steps (log s) @ X" "Z \<in> T" "prefix X Z" by blast
      from emits_nonempty[OF assms(2)] obtain Y where "Y \<in> U" by blast
      with X have "Z @ Y \<in> {X @ Y |X Y. X \<in> T \<and> Y \<in> U}" "prefix X (Z @ Y)"
        by (auto simp: prefix_def)
      with X(1) show ?thesis by blast
    next
      case (Inr x)
      with Pair b have m: "m s = (Inr x, s1)" and f: "f x s1 = (Inl e, s')"
        by (simp_all add: bindE_def)
      from emitsD(1)[OF assms(1) m] obtain X where
        X: "steps (log s1) = steps (log s) @ X" "X \<in> T" by blast
      from emitsD(2)[OF assms(2) f] obtain Y Z where
        Y: "steps (log s') = steps (log s1) @ Y" "Z \<in> U" "prefix Y Z" by blast
      from X Y have 1: "X @ Z \<in> {X @ Y |X Y. X \<in> T \<and> Y \<in> U}"
        and 2: "prefix (X @ Y) (X @ Z)"
        by auto
      have 3: "steps (log s') = steps (log s) @ (X @ Y)" using X(1) Y(1) by simp
      from 1 2 3 show ?thesis by blast
    qed
  qed
qed

lemma emits_seq:
  assumes "emits m {X}" "\<And>x. emits (f x) {Y}"
  shows "emits (bindE m f) {X @ Y}"
  by (rule emits_weaken[OF emits_bindE[OF assms]]) auto

lemma emits_pre:
  assumes "holds silent m" "\<And>x. emits (f x) T"
  shows "emits (bindE m f) T"
  by (rule emits_weaken[OF emits_bindE[OF emits_silent[OF assms(1)] assms(2)]]) auto

lemma emits_post:
  assumes "emits m T" "\<And>x. holds silent (f x)"
  shows "emits (bindE m f) T"
  by (rule emits_weaken[OF emits_bindE[OF assms(1) emits_silent[OF assms(2)]]]) auto



lemma emits_ret: "emits (f x) T \<Longrightarrow> emits (bindE (retE x) f) T"
  by simp

lemma emits_case_prod: "(\<And>x y. emits (f x y) T) \<Longrightarrow> emits (case v of (x, y) \<Rightarrow> f x y) T"
  by (cases v) simp

lemma silent_simple:
  "holds silent (retE x)" "holds silent model_eval" "holds silent (model_to d)"
  "holds silent model_half" "holds silent (model_init b)"
  by (simp_all add: holds_def silent_def retE_def model_eval_def model_to_def model_half_def
        model_init_def)

lemmas silent_quiet = frame_quietD(2,3,7)[OF frame_quiet_silent] holds_lift[OF frame_quiet_silent]
  holds_load_names[OF frame_quiet_silent] holds_zeros[OF frame_quiet_silent]
  holds_detections_loop[OF frame_quiet_silent]


lemma emits_emit: "is_step ev \<Longrightarrow> emits (emit ev) {[ev]}"
  by (simp add: emits_def emit_def)

lemma emits_cv2_imread: "emits (cv2_imread q) {[EvImread q]}"
  by (simp add: emits_def cv2_imread_def)

lemma emits_read_image: "emits (read_image p h) {[EvImread (Path p)]}"
  unfolding read_image_def
  by (rule emits_post[OF emits_cv2_imread])
     (intro holds_case_option silent_simple silent_quiet)

lemma emits_model_call: "emits (model_call ext w imgs) {[EvForward]}"
proof -
  have h: "emits (bindE (emit EvForward) (\<lambda>_. lift v)) {[EvForward]}"
    for v :: "error + prediction option list"
    by (rule emits_post[OF emits_emit]) (simp_all add: silent_quiet)
  show ?thesis
    unfolding emits_def
  proof
    fix s
    show "\<exists>X. steps (log (snd (model_call ext w imgs s))) = steps (log s) @ X
              \<and> (case fst (model_call ext w imgs s) of
                    Inr x \<Rightarrow> X \<in> {[EvForward]} | Inl e \<Rightarrow> (\<exists>Z\<in>{[EvForward]}. prefix X Z))"
      using h[of "forward ext w (net_training s) (net_fp16 s) (net_device s) imgs",
              unfolded emits_def, rule_format, of s]
      by (simp add: model_call_def)
  qed
qed



lemma emits_inference:
  "emits (inference ext w p dev h)
     {[EvCall ''inference'' p, EvImread (Path p), EvForward, EvReturn ''inference'' p]}"
proof -
  have "emits (inference ext w p dev h)
          {[EvCall ''inference'' p] @ ([EvImread (Path p)] @ ([EvForward]
             @ [EvReturn ''inference'' p]))}"
    unfolding inference_def
    apply (rule emits_seq[OF emits_emit])
     apply simp
    apply (rule emits_pre[OF silent_simple(2)])
    apply (rule emits_seq[OF emits_read_image])
    apply (rule emits_ret)
    apply (rule emits_pre[OF silent_quiet(3)])
    apply (rule emits_seq[OF emits_model_call])
    apply (rule emits_pre[OF silent_quiet(3)])
    apply (rule emits_post[OF emits_emit])
     apply simp
    apply (rule silent_simple(1))
    done
  then show ?thesis by simp
qed

lemma emits_if_imread:
  "emits (if c then cv2_imread q else retE None) {if c then [EvImread q] else []}"
  by (cases c) (simp_all add: emits_cv2_imread emits_silent[OF silent_simple(1)])

lemma emits_overlay_boxes:
  "emits (overlay_boxes ext dets p t a)
     {EvCall ''overlay_boxes'' p # (if save_img a then [EvImread (Path p)] else [])
      @ [EvReturn ''overlay_boxes'' p]}"
proof -
  have "emits (overlay_boxes ext dets p t a)
          {[EvCall ''overlay_boxes'' p] @ ((if save_img a then [EvImread (Path p)] else [])
             @ [EvReturn ''overlay_boxes'' p])}"
    unfolding overlay_boxes_def
    apply (rule emits_seq[OF emits_emit])
     apply simp
    apply (rule emits_seq[OF emits_if_imread])
    apply (rule emits_pre[OF silent_quiet(7)])
    apply (rule emits_pre)
     apply (intro holds_case_option silent_simple silent_quiet)
    apply (rule emits_post[OF emits_emit])
     apply simp
    apply (rule silent_simple(1))
    done
  then show ?thesis by simp
qed

lemma bindE_raiseE: "bindE (raiseE e) f = raiseE e"
  by (rule ext) (simp add: bindE_def raiseE_def)

lemma emits_run_dataset:
  "emits (run_dataset ext w a dev h items)
     {concat (map (per_image (save_img a)) (yielded items))}"
proof (induction items)
  case Nil
  show ?case by (simp add: emits_silent[OF silent_simple(1)])
next
  case (Cons item rest)
  show ?case
  proof (cases item)
    case (Inl e)
    then show ?thesis
      by (simp add: lift_def bindE_raiseE emits_silent[OF silent_quiet(1)])
  next
    case (Inr p)
    have eq: "concat (map (per_image (save_img a)) (yielded (Inr p # rest)))
              = [EvYield p] @ ([EvCall ''inference'' p, EvImread (Path p), EvForward,
                EvReturn ''inference'' p]
               @ ((EvCall ''overlay_boxes'' p # (if save_img a then [EvImread (Path p)] else [])
                    @ [EvReturn ''overlay_boxes'' p])
                  @ concat (map (per_image (save_img a)) (yielded rest))))"
      by (simp add: per_image_def)
    have "emits (run_dataset ext w a dev h (Inr p # rest))
            {[EvYield p] @ ([EvCall ''inference'' p, EvImread (Path p), EvForward,
                EvReturn ''inference'' p]
               @ ((EvCall ''overlay_boxes'' p # (if save_img a then [EvImread (Path p)] else [])
                    @ [EvReturn ''overlay_boxes'' p])
                  @ concat (map (per_image (save_img a)) (yielded rest))))}"
      unfolding run_dataset.simps lift_def sum.case
      apply (rule emits_ret)
      apply (rule emits_seq[OF emits_emit])
       apply simp
      apply (rule emits_seq[OF emits_inference])
      apply (rule emits_case_prod)
      apply (rule emits_seq[OF emits_overlay_boxes])
      apply (rule Cons.IH)
      done
    then show ?thesis unfolding Inr eq .
  qed
qed






subsection \<open>The loop over the images\<close>

lemma is_call_step: "is_call ev \<Longrightarrow> is_step ev"
  by (cases ev) simp_all

lemma calls_steps: "calls (steps l) = calls l"
  by (induction l) (auto dest: is_call_step)

lemma calls_per_image: "calls (concat (map (per_image si) ps)) = concat (map per_image_calls ps)"
  by (induction ps) (simp_all add: per_image_def per_image_calls_def)

lemma run_dataset_all_yielded:
  assumes "run_dataset ext w a dev h items s = (Inr u, s')"
  shows "items = map Inr (yielded items)"
  using assms
proof (induction items arbitrary: s)
  case Nil
  then show ?case by simp
next
  case (Cons item rest)
  from Cons.prems obtain p s1 where "item = Inr p"
    and "run_dataset ext w a dev h rest s1 = (Inr u, s')"
    by (auto simp: bindE_Inr_iff split: prod.splits)
  with Cons.IH show ?case by simp
qed

text \<open>
  Claim C4. The loop of \<^verbatim>\<open>main\<close> treats the images one at a time, in the order
  in which the data set yields them: the calls and returns of
  \<^verbatim>\<open>inference\<close> and \<^verbatim>\<open>overlay_boxes\<close> that a run logs are, path after path,
  the call and return of \<^verbatim>\<open>inference\<close> followed by the call and return of
  \<^verbatim>\<open>overlay_boxes\<close>, so that \<^verbatim>\<open>overlay_boxes\<close> has returned for one image
  before \<^verbatim>\<open>inference\<close> is called for the next. A loop that raises has logged
  a prefix of that sequence; a loop that returns has logged all of it, and
  the data set has yielded every one of its items.
\<close>

theorem images_in_sequence:
  "\<exists>X. calls (log (snd (run_dataset ext w a dev h items s))) = calls (log s) @ X
       \<and> prefix X (concat (map per_image_calls (yielded items)))
       \<and> (fst (run_dataset ext w a dev h items s) = Inr () \<longrightarrow>
            X = concat (map per_image_calls (yielded items))
            \<and> items = map Inr (yielded items))"
proof -
  let ?run = "run_dataset ext w a dev h items s"
  let ?Z = "concat (map (per_image (save_img a)) (yielded items))"
  from emits_run_dataset[of ext w a dev h items, unfolded emits_def, rule_format, of s]
  obtain Y where Y: "steps (log (snd ?run)) = steps (log s) @ Y"
    and c: "case fst ?run of Inr x \<Rightarrow> Y \<in> {?Z} | Inl e \<Rightarrow> (\<exists>Z\<in>{?Z}. prefix Y Z)"
    by blast
  have p: "prefix Y ?Z" using c by (cases "fst ?run") auto
  have "calls (log (snd ?run)) = calls (steps (log (snd ?run)))" by (simp add: calls_steps)
  also have "\<dots> = calls (log s) @ calls Y" by (simp add: Y calls_steps)
  finally have 1: "calls (log (snd ?run)) = calls (log s) @ calls Y" .
  have 2: "prefix (calls Y) (concat (map per_image_calls (yielded items)))"
    using filter_mono_prefix[OF p, of is_call] by (simp add: calls_def[symmetric] calls_per_image)
  have 3: "calls Y = concat (map per_image_calls (yielded items))
           \<and> items = map Inr (yielded items)" if r: "fst ?run = Inr ()"
  proof
    from c r have "Y = ?Z" by simp
    then show "calls Y = concat (map per_image_calls (yielded items))"
      by (simp add: calls_per_image)
    from r have "?run = (Inr (), snd ?run)" by (simp add: prod_eq_iff)
    from run_dataset_all_yielded[OF this] show "items = map Inr (yielded items)" .
  qed
  from 1 2 3 show ?thesis by blast
qed

theorem images_in_sequence_witness:
  "fst (run_dataset (demo_ext ''images'' [Some demo_prediction]) ()
          (demo_main_args [] ''images'') Cpu False [Inr ''a.jpg'', Inr ''.github/a.jpg'']
          demo_world) = Inl RuntimeError
   \<and> fst (run_dataset (demo_ext ''images'' [Some demo_prediction]) ()
          (demo_main_args [] ''images'') Cpu False [Inr ''.github/a.jpg'', Inr ''.github/a.jpg'']
          demo_world) = Inr ()
   \<and> calls (log (snd (run_dataset (demo_ext ''images'' [Some demo_prediction]) ()
          (demo_main_args [] ''images'') Cpu False [Inr ''.github/a.jpg'', Inr ''.github/a.jpg'']
          demo_world)))
     = [EvCall ''inference'' ''.github/a.jpg'', EvReturn ''inference'' ''.github/a.jpg'',
        EvCall ''overlay_boxes'' ''.github/a.jpg'', EvReturn ''overlay_boxes'' ''.github/a.jpg'',
        EvCall ''inference'' ''.github/a.jpg'', EvReturn ''inference'' ''.github/a.jpg'',
        EvCall ''overlay_boxes'' ''.github/a.jpg'', EvReturn ''overlay_boxes'' ''.github/a.jpg'']"
proof -
  let ?E = "demo_ext ''images'' [Some demo_prediction]"
  let ?a = "demo_main_args [] ''images''"
  let ?items = "[Inr ''.github/a.jpg'', Inr ''.github/a.jpg'']"
  let ?run = "run_dataset ?E () ?a Cpu False ?items demo_world"
  have b: "fst (run_dataset ?E () ?a Cpu False [Inr ''a.jpg'', Inr ''.github/a.jpg'']
             demo_world) = Inl RuntimeError" by code_simp
  have f: "fst ?run = Inr ()" by code_simp
  have l: "calls (log demo_world) = []" by (simp add: demo_world_def)
  have z: "concat (map per_image_calls (yielded ?items))
     = [EvCall ''inference'' ''.github/a.jpg'', EvReturn ''inference'' ''.github/a.jpg'',
        EvCall ''overlay_boxes'' ''.github/a.jpg'', EvReturn ''overlay_boxes'' ''.github/a.jpg'',
        EvCall ''inference'' ''.github/a.jpg'', EvReturn ''inference'' ''.github/a.jpg'',
        EvCall ''overlay_boxes'' ''.github/a.jpg'', EvReturn ''overlay_boxes'' ''.github/a.jpg'']"
    by (simp add: per_image_calls_def)
  from images_in_sequence[of ?E "()" ?a Cpu False ?items demo_world] f obtain X where
    "calls (log (snd ?run)) = calls (log demo_world) @ X"
    "X = concat (map per_image_calls (yielded ?items))"
    by blast
  with l z have "calls (log (snd ?run))
     = [EvCall ''inference'' ''.github/a.jpg'', EvReturn ''inference'' ''.github/a.jpg'',
        EvCall ''overlay_boxes'' ''.github/a.jpg'', EvReturn ''overlay_boxes'' ''.github/a.jpg'',
        EvCall ''inference'' ''.github/a.jpg'', EvReturn ''inference'' ''.github/a.jpg'',
        EvCall ''overlay_boxes'' ''.github/a.jpg'', EvReturn ''overlay_boxes'' ''.github/a.jpg'']"
    by simp
  with b f show ?thesis by (intro conjI)
qed

end
